theory Spec2Isabelle
  imports Complex_Main "HOL-Library.AList" "HOL-Library.Log_Nat"
begin

section \<open>Basic types, errors and constants\<close>

text \<open>
  The module \<^verbatim>\<open>ISMCTS.py\<close> is embedded function by function. Python floats are
  read as real numbers, Python ints that only count as natural numbers, exceptions as the
  left summand of a result type, mutation as returning the updated object. In
  \<^verbatim>\<open>computePUCT\<close> and \<^verbatim>\<open>apply_H_mask\<close>, where a comparison with a tolerance as small
  as \<^verbatim>\<open>1e-8\<close> decides what is returned, the numbers are doubles and every operation
  rounds as numpy does. Logging and the
  diagnostic registry of trees (\<^verbatim>\<open>trees\<close>, \<^verbatim>\<open>visit_counter\<close>,
  \<^verbatim>\<open>Tree.next_id\<close>) have no effect on any value computed and are left out.
\<close>

type_synonym action = nat
type_synonym player = nat
type_synonym interval = "real \<times> real"

datatype py_error =
  KeyError | IndexError | ValueError | TypeError | AssertionError | AttributeError
  | ZeroDivisionError | RecursionError

type_synonym 'a result = "py_error + 'a"

definition ebind :: "'a result \<Rightarrow> ('a \<Rightarrow> 'b result) \<Rightarrow> 'b result" where
  "ebind m f = (case m of Inl e \<Rightarrow> Inl e | Inr x \<Rightarrow> f x)"

text \<open>\<^verbatim>\<open>class Constants\<close> and the module flag \<^verbatim>\<open>CHEAT\<close>.\<close>

definition EPS :: real where
  "EPS = 5 / 100"

definition c_PUCT :: real where
  "c_PUCT = 1"

definition CHEAT :: bool where
  "CHEAT = True"

text \<open>
  \<^verbatim>\<open>IntervalLike\<close>: a number or an array of two numbers. The same two shapes are the ones
  that \<^verbatim>\<open>residual_Q_to_V\<close> takes at run time (the int \<^verbatim>\<open>0\<close> it starts with, an array
  after the first update), so it is typed with it too.
\<close>

datatype interval_like = Scalar real | Interval interval

fun to_interval :: "interval_like \<Rightarrow> interval" where
  "to_interval (Interval i) = i"
| "to_interval (Scalar v) = (v, v)"

text \<open>\<^verbatim>\<open>union_interval + child.residual_Q_to_V\<close>, with numpy's broadcast of a scalar.\<close>

fun add_residual :: "interval \<Rightarrow> interval_like \<Rightarrow> interval" where
  "add_residual (l, u) (Scalar r) = (l + r, u + r)"
| "add_residual (l, u) (Interval (rl, ru)) = (l + rl, u + ru)"

text \<open>
  \<^verbatim>\<open>(self.residual_Q_to_V * (self.N - 1) + self.Q - self.V) / self.N\<close>: \<^verbatim>\<open>Q\<close> is an
  array of two, so the result is one whatever the shape of the old residual.
\<close>

fun update_residual :: "interval_like \<Rightarrow> nat \<Rightarrow> interval \<Rightarrow> real \<Rightarrow> interval_like" where
  "update_residual (Scalar r) n (l, u) v =
     Interval ((r * (real n - 1) + l - v) / real n, (r * (real n - 1) + u - v) / real n)"
| "update_residual (Interval (rl, ru)) n (l, u) v =
     Interval ((rl * (real n - 1) + l - v) / real n, (ru * (real n - 1) + u - v) / real n)"

section \<open>Double precision\<close>

text \<open>
  A numpy \<^verbatim>\<open>float64\<close> operation returns the double nearest to the exact result, ties
  going to the even significand. \<open>exponent x\<close> is the binary exponent of a positive
  \<open>x\<close>, that is \<open>2\<^sup>e \<le> x < 2\<^sup>e\<^sup>+\<^sup>1\<close>; \<open>ulp x\<close> is the distance between neighbouring
  doubles around \<open>x\<close>: 52 bits below the exponent, and \<open>2\<^sup>-\<^sup>1\<^sup>0\<^sup>7\<^sup>4\<close> for the subnormal
  numbers below \<open>2\<^sup>-\<^sup>1\<^sup>0\<^sup>2\<^sup>2\<close>. Infinities and NaN have no counterpart: a result beyond the
  largest double is rounded like any other.
\<close>

definition round_half_even :: "real \<Rightarrow> int" where
  "round_half_even x =
     (let f = \<lfloor>x\<rfloor>; r = x - of_int f in
      if r < 1 / 2 then f else if 1 / 2 < r then f + 1 else if even f then f else f + 1)"

definition exponent :: "real \<Rightarrow> int" where
  "exponent x = (if 1 \<le> x then bitlen \<lfloor>x\<rfloor> - 1 else - bitlen (\<lceil>1 / x\<rceil> - 1))"

definition ulp :: "real \<Rightarrow> real" where
  "ulp x = 2 powi (max (exponent \<bar>x\<bar>) (- 1022) - 52)"

definition float64 :: "real \<Rightarrow> real" where
  "float64 x = of_int (round_half_even (x / ulp x)) * ulp x"

text \<open>The doubles that the literals \<^verbatim>\<open>1e-8\<close> and \<^verbatim>\<open>1e-6\<close> denote.\<close>

definition double_1e8 :: real where
  "double_1e8 = 3022314549036573 / 2 ^ 78"

definition double_1e6 :: real where
  "double_1e6 = 4722366482869645 / 2 ^ 72"

text \<open>
  \<^verbatim>\<open>np.sum\<close> of an array of doubles is numpy's pairwise summation: fewer than 8 entries
  are added from left to right, starting from zero; up to 128 entries are added into eight
  partial sums, entry \<open>i\<close> into sum \<open>i mod 8\<close>, which are then added in pairs, and the
  entries left over beyond a multiple of 8 are added last; a longer array is split in
  two near the middle, at a multiple of 8.
\<close>

definition sum_loop :: "real \<Rightarrow> real list \<Rightarrow> real" where
  "sum_loop res xs = foldl (\<lambda>res x. float64 (res + x)) res xs"

definition sum_block :: "real list \<Rightarrow> real" where
  "sum_block xs =
     (let n = length xs;
          m = n - n mod 8;
          r = (\<lambda>j. sum_loop (xs ! j) (map (\<lambda>i. xs ! (i + j)) (filter (\<lambda>i. i mod 8 = 0) [8..<m])));
          res = float64 (float64 (float64 (r 0 + r 1) + float64 (r 2 + r 3))
                         + float64 (float64 (r 4 + r 5) + float64 (r 6 + r 7)))
      in sum_loop res (drop m xs))"

function np_sum :: "real list \<Rightarrow> real" where
  "np_sum xs =
     (let n = length xs in
      if n < 8 then sum_loop 0 xs
      else if n \<le> 128 then sum_block xs
      else let n2 = n div 2 - n div 2 mod 8
           in float64 (np_sum (take n2 xs) + np_sum (drop n2 xs)))"
  by pat_completeness auto
termination
  by (relation "measure length") auto

declare np_sum.simps [simp del]

section \<open>The collaborators that the module imports\<close>

text \<open>
  \<^verbatim>\<open>InfoSet\<close>, \<^verbatim>\<open>Model\<close> and \<^verbatim>\<open>perturb_prob_simplex\<close> are imported from modules that
  are not part of the sources at hand. They are parameters of the embedding: the type
  \<open>'i\<close> is the information set, and the records below hold the methods that the code
  calls on it.
\<close>

text \<open>
  Modelled from the spec: the class \<^verbatim>\<open>InfoSet\<close> (module \<^verbatim>\<open>info_set\<close>) is missing. Its
  methods are taken as given functions; \<^verbatim>\<open>get_game_outcome\<close> returns an optional mapping
  from player to value, \<^verbatim>\<open>get_H_mask\<close> an indicator vector. \<open>num_cards\<close> is
  \<^verbatim>\<open>len(info_set.cards)\<close> and \<open>redact_card s i\<close> is the information set after
  \<^verbatim>\<open>info_set.cards[i] = None\<close>. \<open>info_apply\<close> is the method \<^verbatim>\<open>apply\<close>.
  \<^verbatim>\<open>perturb_prob_simplex\<close> (module \<^verbatim>\<open>utils\<close>) is missing too and is taken as a function
  from the child intervals, the weights and the tolerance to an interval, or an error.
\<close>

record 'i env =
  get_current_player :: "'i \<Rightarrow> player"
  get_game_outcome :: "'i \<Rightarrow> (player \<rightharpoonup> real) option"
  get_actions :: "'i \<Rightarrow> action list"
  info_apply :: "'i \<Rightarrow> action \<Rightarrow> 'i"
  has_hidden_info :: "'i \<Rightarrow> bool"
  get_H_mask :: "'i \<Rightarrow> bool list"
  instantiate_hidden_state :: "'i \<Rightarrow> nat \<Rightarrow> 'i"
  clone :: "'i \<Rightarrow> 'i"
  num_cards :: "'i \<Rightarrow> nat"
  redact_card :: "'i \<Rightarrow> nat \<Rightarrow> 'i"
  perturb_prob_simplex :: "interval list \<Rightarrow> real list \<Rightarrow> real \<Rightarrow> interval result"

text \<open>
  Modelled from the spec: the class \<^verbatim>\<open>Model\<close> (module \<^verbatim>\<open>model\<close>) is missing. Its two
  queries are pure functions of the owner and the information set, returning
  \<open>(P, V, Vc)\<close> and \<open>(H, V, Vc)\<close>.
\<close>

record 'i model =
  action_eval :: "player option \<Rightarrow> 'i \<Rightarrow> real list \<times> real \<times> real list"
  hidden_eval :: "player option \<Rightarrow> 'i \<Rightarrow> real list \<times> real \<times> real list"

section \<open>Nodes, edges and trees\<close>

text \<open>
  The attributes set by \<^verbatim>\<open>Node.__init__\<close>, together with \<^verbatim>\<open>V\<close>, \<^verbatim>\<open>Vc\<close> and
  \<^verbatim>\<open>_expanded\<close>, which both subclasses define. \<^verbatim>\<open>children\<close> is kept in the datatype
  below, since it holds nodes.
\<close>

record 'i node_base =
  info_set :: 'i
  cp :: player
  game_outcome :: "(player \<rightharpoonup> real) option"
  Q :: interval
  N :: nat
  tree_owner :: "player option"
  residual_Q_to_V :: interval_like
  V :: "real option"
  Vc :: "real list option"
  expanded :: bool

text \<open>
  An \<^verbatim>\<open>Edge\<close> is the pair of its index and its node; \<^verbatim>\<open>children\<close> is the dict as an
  association list in insertion order.
\<close>

datatype 'i node =
    ActionNode (base: "'i node_base") (actions: "action list") (P: "real list option")
      (children: "(nat \<times> nat \<times> 'i node) list") (spawned_tree: "'i tree option")
  | SamplingNode (base: "'i node_base") (H: "real list option") (H_mask: "bool list")
      (children: "(nat \<times> nat \<times> 'i node) list")
and 'i tree =
    Tree (model: "'i model") (root: "'i node") (tree_tree_owner: player)

type_synonym 'i edge = "nat \<times> 'i node"

fun update_base :: "('i node_base \<Rightarrow> 'i node_base) \<Rightarrow> 'i node \<Rightarrow> 'i node" where
  "update_base f (ActionNode b acts p ch sp) = ActionNode (f b) acts p ch sp"
| "update_base f (SamplingNode b h m ch) = SamplingNode (f b) h m ch"

fun set_children :: "(nat \<times> 'i edge) list \<Rightarrow> 'i node \<Rightarrow> 'i node" where
  "set_children ch' (ActionNode b acts p ch sp) = ActionNode b acts p ch' sp"
| "set_children ch' (SamplingNode b h m ch) = SamplingNode b h m ch'"

fun set_spawned_tree :: "'i tree option \<Rightarrow> 'i node \<Rightarrow> 'i node" where
  "set_spawned_tree sp' (ActionNode b acts p ch sp) = ActionNode b acts p ch sp'"
| "set_spawned_tree sp' (SamplingNode b h m ch) = SamplingNode b h m ch"

definition terminal :: "'i node \<Rightarrow> bool" where
  "terminal self = (game_outcome (base self) \<noteq> None)"

text \<open>\<^verbatim>\<open>self.children[key] = Edge(len(self.children), node)\<close>.\<close>

definition add_child :: "nat \<Rightarrow> 'i node \<Rightarrow> 'i node \<Rightarrow> 'i node" where
  "add_child key node self =
     set_children (AList.update key (length (children self), node) (children self)) self"

text \<open>\<^verbatim>\<open>self.children[key]\<close>.\<close>

definition get_child :: "'i node \<Rightarrow> nat \<Rightarrow> 'i edge result" where
  "get_child self key = (case map_of (children self) key of None \<Rightarrow> Inl KeyError | Some e \<Rightarrow> Inr e)"

section \<open>Construction\<close>

definition Node_init :: "'i env \<Rightarrow> 'i \<Rightarrow> player option \<Rightarrow> interval_like \<Rightarrow> 'i node_base" where
  "Node_init X s owner Q0 =
     \<lparr> info_set = s, cp = get_current_player X s, game_outcome = get_game_outcome X s,
       Q = to_interval Q0, N = 0, tree_owner = owner, residual_Q_to_V = Scalar 0,
       V = None, Vc = None, expanded = False \<rparr>"

text \<open>
  \<^verbatim>\<open>ActionNode.__init__\<close>: a terminal node reads \<^verbatim>\<open>self.game_outcome[self.tree_owner]\<close>
  at once; the lookup raises when the owner is no key of the mapping.
\<close>

definition ActionNode_init ::
  "'i env \<Rightarrow> 'i \<Rightarrow> player option \<Rightarrow> interval_like \<Rightarrow> 'i node result" where
  "ActionNode_init X s owner initQ =
     (let b = Node_init X s owner initQ; acts = get_actions X s in
      case game_outcome b of
        None \<Rightarrow> Inr (ActionNode b acts None [] None)
      | Some outcome \<Rightarrow>
          (case owner of
             None \<Rightarrow> Inl KeyError
           | Some p \<Rightarrow>
               (case outcome p of
                  None \<Rightarrow> Inl KeyError
                | Some v \<Rightarrow>
                    Inr (ActionNode (b\<lparr>V := Some v, Q := to_interval (Scalar v)\<rparr>)
                           acts None [] None))))"

text \<open>\<^verbatim>\<open>SamplingNode.__init__\<close>, with its \<^verbatim>\<open>assert np.any(self.H_mask)\<close>.\<close>

definition SamplingNode_init ::
  "'i env \<Rightarrow> 'i \<Rightarrow> player option \<Rightarrow> interval_like \<Rightarrow> 'i node result" where
  "SamplingNode_init X s owner initQ =
     (let b = Node_init X s owner initQ; msk = get_H_mask X s in
      if True \<in> set msk then Inr (SamplingNode b None msk []) else Inl AssertionError)"

text \<open>\<^verbatim>\<open>Tree.__init__\<close>: the owner is the root's current player, and is written into the root.\<close>

definition Tree_init :: "'i env \<Rightarrow> 'i model \<Rightarrow> 'i node \<Rightarrow> 'i tree" where
  "Tree_init X M r =
     (let owner = get_current_player X (info_set (base r)) in
      Tree M (update_base (\<lambda>b. b\<lparr>tree_owner := Some owner\<rparr>) r) owner)"

text \<open>
  \<^verbatim>\<open>SamplingNode.create_spawned_tree\<close>: the clone keeps only the current player's card;
  the root is built with the default owner \<^verbatim>\<open>None\<close> and the default \<^verbatim>\<open>initQ = 0\<close>.
\<close>

definition redacted_clone :: "'i env \<Rightarrow> 'i \<Rightarrow> 'i" where
  "redacted_clone X s =
     (let s1 = clone X s;
          p = get_current_player X s1
      in fold (\<lambda>i t. if i \<noteq> p then redact_card X t i else t) [0..<num_cards X s1] s1)"

definition create_spawned_tree :: "'i env \<Rightarrow> 'i model \<Rightarrow> 'i \<Rightarrow> 'i tree result" where
  "create_spawned_tree X M s =
     ebind (ActionNode_init X (redacted_clone X s) None (Scalar 0)) (\<lambda>r. Inr (Tree_init X M r))"

section \<open>Evaluation\<close>

text \<open>
  \<^verbatim>\<open>self.H *= self.H_mask\<close> is numpy's product in place: the mask must have the shape of
  \<^verbatim>\<open>H\<close> or one entry, which is then broadcast; any other shape raises. A product with
  0 or 1 is exact; the sum of the masked entries and the two divisions are rounded. The
  sum of the mask is a sum of integers.
\<close>

definition imul_mask :: "real list \<Rightarrow> bool list \<Rightarrow> real list result" where
  "imul_mask h msk =
     (if length msk = length h then Inr (map2 (\<lambda>x m. x * of_bool m) h msk)
      else if length msk = 1 then Inr (map (\<lambda>x. x * of_bool (hd msk)) h)
      else Inl ValueError)"

definition apply_H_mask :: "real list \<Rightarrow> bool list \<Rightarrow> real list result" where
  "apply_H_mask h msk =
     ebind (imul_mask h msk) (\<lambda>h1.
       let H_sum = np_sum h1 in
       if H_sum < double_1e6
       then Inr (map (\<lambda>m. float64 (of_bool m / (\<Sum>m' \<leftarrow> msk. of_bool m'))) msk)
       else Inr (map (\<lambda>x. float64 (x / H_sum)) h1))"

fun eval_model :: "'i model \<Rightarrow> 'i node \<Rightarrow> 'i node result" where
  "eval_model M (ActionNode b acts p ch sp) =
     (if p \<noteq> None \<or> game_outcome b \<noteq> None then Inr (ActionNode b acts p ch sp)
      else (case action_eval M (tree_owner b) (info_set b) of
              (p', v', vc') \<Rightarrow>
                Inr (ActionNode (b\<lparr>V := Some v', Vc := Some vc', Q := to_interval (Scalar v')\<rparr>)
                       acts (Some p') ch sp)))"
| "eval_model M (SamplingNode b h msk ch) =
     (if h \<noteq> None then Inr (SamplingNode b h msk ch)
      else (case hidden_eval M (tree_owner b) (info_set b) of
              (h', v', vc') \<Rightarrow>
                ebind (apply_H_mask h' msk) (\<lambda>h''.
                  Inr (SamplingNode
                         (b\<lparr>V := Some v', Vc := Some vc', Q := to_interval (Scalar v')\<rparr>)
                         (Some h'') msk ch))))"

section \<open>numpy and built-in operations\<close>

text \<open>\<^verbatim>\<open>xs[i]\<close> on a list or an array, for an index that is not negative.\<close>

definition list_get :: "'a list \<Rightarrow> nat \<Rightarrow> 'a result" where
  "list_get xs i = (if i < length xs then Inr (xs ! i) else Inl IndexError)"

text \<open>\<^verbatim>\<open>self.Vc[a]\<close>; \<^verbatim>\<open>None\<close> is not subscriptable.\<close>

definition index_Vc :: "real list option \<Rightarrow> nat \<Rightarrow> real result" where
  "index_Vc vc a = (case vc of None \<Rightarrow> Inl TypeError | Some xs \<Rightarrow> list_get xs a)"

text \<open>
  An elementwise operation on two arrays of one dimension: equal lengths, or one of them
  of length one, which is broadcast; anything else raises.
\<close>

definition broadcast2 :: "('a \<Rightarrow> 'b \<Rightarrow> 'c) \<Rightarrow> 'a list \<Rightarrow> 'b list \<Rightarrow> 'c list result" where
  "broadcast2 f xs ys =
     (if length xs = length ys then Inr (map2 f xs ys)
      else if length xs = 1 then Inr (map (f (hd xs)) ys)
      else if length ys = 1 then Inr (map (\<lambda>x. f x (hd ys)) xs)
      else Inl ValueError)"

text \<open>\<^verbatim>\<open>np.argmax\<close>: the first index at which the maximum is attained.\<close>

fun argmax :: "real list \<Rightarrow> nat" where
  "argmax [] = 0"
| "argmax (x # xs) = (if \<forall>y \<in> set xs. y \<le> x then 0 else Suc (argmax xs))"

text \<open>\<^verbatim>\<open>probs[child_keys]\<close>: indexing by an array of keys; an empty list of keys makes an
  array of floats, which is no index.\<close>

definition fancy_index :: "real list option \<Rightarrow> nat list \<Rightarrow> real list result" where
  "fancy_index probs keys =
     (case probs of
        None \<Rightarrow> Inl TypeError
      | Some xs \<Rightarrow>
          if keys = [] then Inl IndexError
          else if \<exists>k \<in> set keys. length xs \<le> k then Inl IndexError
          else Inr (map (\<lambda>k. xs ! k) keys))"

text \<open>
  \<^verbatim>\<open>np.random\<close>: the state of the global generator is the stream of uniform samples of
  \<open>[0, 1)\<close> that it is going to return. \<^verbatim>\<open>np.random.choice(a, p=p)\<close> checks \<open>p\<close>
  (size, sign, sum within \<open>sqrt eps\<close> of one, which is \<open>2\<^sup>-\<^sup>2\<^sup>6\<close> for doubles) and
  looks the next sample up in the normalised cumulative sums, from the right.
\<close>

type_synonym rng = "nat \<Rightarrow> real"

fun cumsum_from :: "real \<Rightarrow> real list \<Rightarrow> real list" where
  "cumsum_from acc [] = []"
| "cumsum_from acc (x # xs) = (acc + x) # cumsum_from (acc + x) xs"

definition choice :: "rng \<Rightarrow> nat \<Rightarrow> real list \<Rightarrow> (nat \<times> rng) result" where
  "choice g a p =
     (if a = 0 \<or> length p \<noteq> a then Inl ValueError
      else if \<exists>x \<in> set p. x < 0 then Inl ValueError
      else if \<bar>sum_list p - 1\<bar> > 1 / 2 ^ 26 then Inl ValueError
      else let cdf = cumsum_from 0 p;
               cdf = map (\<lambda>x. x / last cdf) cdf
           in Inr (length (takeWhile (\<lambda>c. c \<le> g 0) cdf), \<lambda>k. g (Suc k)))"

section \<open>Node: values of the children and the union interval\<close>

text \<open>\<^verbatim>\<open>get_Vc\<close>: a child that was never evaluated has \<^verbatim>\<open>V = None\<close>, which is no number.\<close>

fun get_Vc_list :: "(nat \<times> 'i edge) list \<Rightarrow> real list result" where
  "get_Vc_list [] = Inr []"
| "get_Vc_list ((k, i, child) # rest) =
     (case V (base child) of
        None \<Rightarrow> Inl TypeError
      | Some v \<Rightarrow> ebind (get_Vc_list rest) (\<lambda>vs. Inr (v # vs)))"

definition get_Vc :: "'i node \<Rightarrow> real list result" where
  "get_Vc self = get_Vc_list (children self)"

definition calc_union_interval :: "'i env \<Rightarrow> 'i node \<Rightarrow> real list option \<Rightarrow> interval result" where
  "calc_union_interval X self probs =
     ebind (get_Vc self) (\<lambda>vc.
       let Vc_intervals = map (\<lambda>v. (v, v)) vc;
           child_keys = map fst (children self)
       in ebind (fancy_index probs child_keys) (\<lambda>w.
            perturb_prob_simplex X Vc_intervals w EPS))"

text \<open>
  The three lines that end \<^verbatim>\<open>spawned_visit\<close>, \<^verbatim>\<open>unspawned_visit\<close> and
  \<^verbatim>\<open>SamplingNode.visit\<close> alike: the new \<^verbatim>\<open>Q\<close>, then the new residual from it.
\<close>

definition update_Q :: "'i node \<Rightarrow> interval \<Rightarrow> 'i node \<Rightarrow> 'i node result" where
  "update_Q self union_interval child =
     (let self = update_base (\<lambda>b. b\<lparr>Q := add_residual union_interval (residual_Q_to_V (base child))\<rparr>) self
      in case V (base self) of
           None \<Rightarrow> Inl TypeError
         | Some v \<Rightarrow>
             Inr (update_base
                    (\<lambda>b. b\<lparr>residual_Q_to_V := update_residual (residual_Q_to_V b) (N b) (Q b) v\<rparr>)
                    self))"

section \<open>ActionNode\<close>

text \<open>
  The body of the loop of \<^verbatim>\<open>ActionNode.expand\<close>: \<open>construct_child\<close> is the choice of
  the child's class and the call of its constructor, \<open>expand_action\<close> the whole iteration.
\<close>

definition construct_child :: "'i env \<Rightarrow> 'i node \<Rightarrow> action \<Rightarrow> 'i node result" where
  "construct_child X self a =
     (let s = info_apply X (info_set (base self)) a in
      ebind (index_Vc (Vc (base self)) a) (\<lambda>q.
        if cp (base self) \<noteq> get_current_player X s \<and> has_hidden_info X s
        then SamplingNode_init X s (tree_owner (base self)) (Scalar q)
        else ActionNode_init X s (tree_owner (base self)) (Scalar q)))"

definition expand_action :: "'i env \<Rightarrow> 'i model \<Rightarrow> action \<Rightarrow> 'i node \<Rightarrow> 'i node result" where
  "expand_action X M a self =
     ebind (construct_child X self a) (\<lambda>node.
     ebind (if CHEAT then eval_model M node else Inr node) (\<lambda>node.
       Inr (add_child a node self)))"

fun expand_actions :: "'i env \<Rightarrow> 'i model \<Rightarrow> action list \<Rightarrow> 'i node \<Rightarrow> 'i node result" where
  "expand_actions X M [] self = Inr self"
| "expand_actions X M (a # as) self = ebind (expand_action X M a self) (expand_actions X M as)"

definition ActionNode_expand :: "'i env \<Rightarrow> 'i model \<Rightarrow> 'i node \<Rightarrow> 'i node result" where
  "ActionNode_expand X M self0 =
     (let self = update_base (\<lambda>b. b\<lparr>expanded := True\<rparr>) self0 in
      if terminal self then Inr self
      else ebind (eval_model M self) (\<lambda>self.
           ebind (expand_actions X M (actions self) self) (\<lambda>self.
             case V (base self) of
               None \<Rightarrow> Inl TypeError
             | Some v \<Rightarrow> Inr (update_base (\<lambda>b. b\<lparr>Q := to_interval (Scalar v)\<rparr>) self))))"

text \<open>
  The loop of \<^verbatim>\<open>computePUCT\<close> writes row \<^verbatim>\<open>edge.index\<close> of three arrays of length
  \<open>c\<close>; an index beyond them raises. The visit count is an int that is stored in an
  array of doubles. Every operation on the arrays rounds:
  \<^verbatim>\<open>c_PUCT * P\<close>, the square root of \<^verbatim>\<open>np.sum(N)\<close>, their product, \<^verbatim>\<open>N + 1\<close>, the
  quotient, the sum with either bound of \<^verbatim>\<open>Q\<close>, and \<^verbatim>\<open>max_lower_bound - 1e-8\<close>.
\<close>

fun fill_arrays ::
  "(nat \<times> 'i edge) list \<Rightarrow> nat list \<times> interval list \<times> real list \<Rightarrow>
     (nat list \<times> interval list \<times> real list) result" where
  "fill_arrays [] arrs = Inr arrs"
| "fill_arrays ((a, i, child) # rest) (acts, qs, ns) =
     (if i < length acts
      then fill_arrays rest
             (acts[i := a], qs[i := Q (base child)], ns[i := float64 (real (N (base child)))])
      else Inl IndexError)"

fun computePUCT :: "'i node \<Rightarrow> (interval list \<times> nat list) result" where
  "computePUCT (ActionNode b acts p ch sp) =
     (let c = length ch in
      ebind (fill_arrays ch (replicate c 0, replicate c (0, 0), replicate c 0)) (\<lambda>(aa, qs, ns).
        case p of
          None \<Rightarrow> Inl TypeError
        | Some pr \<Rightarrow>
            ebind (broadcast2
                     (\<lambda>x n. float64 (float64 (float64 (c_PUCT * x) * float64 (sqrt (np_sum ns)))
                                       / float64 (n + 1))) pr ns) (\<lambda>bonus.
            ebind (broadcast2 (\<lambda>(l, u) e. (float64 (l + e), float64 (u + e))) qs bonus) (\<lambda>PUCT.
              if PUCT = [] then Inl ValueError
              else let max_lower_bound_index = argmax (map fst PUCT);
                       max_lower_bound = fst (PUCT ! max_lower_bound_index)
                   in Inr (qs, filter (\<lambda>i. float64 (max_lower_bound - double_1e8) \<le> snd (PUCT ! i))
                                 [0..<length PUCT])))))"
| "computePUCT (SamplingNode b h msk ch) = Inl AttributeError"

fun get_mixing_distribution :: "'i node \<Rightarrow> nat list \<Rightarrow> real list result" where
  "get_mixing_distribution (ActionNode b acts p ch sp) action_indices =
     (case p of
        None \<Rightarrow> Inl TypeError
      | Some pr \<Rightarrow>
          if \<exists>i \<in> set action_indices. length pr \<le> i then Inl IndexError
          else let msk = map (\<lambda>i. if i \<in> set action_indices then 1 else 0) [0..<length pr];
                   pm = map2 (*) pr msk;
                   s = sum_list pm
               in if s > 0 then Inr (map (\<lambda>x. x / s) pm) else Inl AssertionError)"
| "get_mixing_distribution (SamplingNode b h msk ch) action_indices = Inl AttributeError"

section \<open>Visits\<close>

text \<open>
  \<^verbatim>\<open>visit\<close> calls itself on a child or on the root of a spawned tree. The methods below
  take that recursive call as the argument \<open>rec\<close>; \<open>visit\<close> ties the knot further down.
  A visit returns the node as it has become, the value returned by the method and the
  generator.
\<close>

type_synonym 'i visit_fn = "'i node \<Rightarrow> rng \<Rightarrow> ('i node \<times> action option \<times> rng) result"

text \<open>\<^verbatim>\<open>child.visit(model)\<close> on \<^verbatim>\<open>self.children[key].node\<close>: the child is visited in place.\<close>

definition visit_child :: "'i visit_fn \<Rightarrow> 'i node \<Rightarrow> nat \<Rightarrow> rng \<Rightarrow> ('i node \<times> 'i node \<times> rng) result" where
  "visit_child rec self key g =
     ebind (get_child self key) (\<lambda>(i, child).
     ebind (rec child g) (\<lambda>(child, r, g).
       Inr (set_children (AList.update key (i, child) (children self)) self, child, g)))"

fun unspawned_visit :: "'i visit_fn \<Rightarrow> 'i env \<Rightarrow> 'i node \<Rightarrow> rng \<Rightarrow> ('i node \<times> action option \<times> rng) result" where
  "unspawned_visit rec X (ActionNode b acts p ch sp) g =
     (let self = ActionNode b acts p ch sp in
      ebind (computePUCT self) (\<lambda>(Qc, action_indices).
      ebind (if length action_indices = 1 then Inr (hd action_indices, g)
             else ebind (get_mixing_distribution self action_indices) (\<lambda>mixing_distr.
                    case p of None \<Rightarrow> Inl TypeError
                    | Some pr \<Rightarrow> choice g (length pr) mixing_distr)) (\<lambda>(action_index, g).
      ebind (list_get acts action_index) (\<lambda>action.
      ebind (visit_child rec self action g) (\<lambda>(self, child, g).
      ebind (calc_union_interval X self p) (\<lambda>union_interval.
      ebind (update_Q self union_interval child) (\<lambda>self.
        Inr (self, Some action, g))))))))"
| "unspawned_visit rec X (SamplingNode b h msk ch) g = Inl AttributeError"

fun spawned_visit :: "'i visit_fn \<Rightarrow> 'i env \<Rightarrow> 'i node \<Rightarrow> rng \<Rightarrow> ('i node \<times> rng) result" where
  "spawned_visit rec X (ActionNode b acts p ch (Some (Tree Mt r ow))) g =
     ebind (if N (base r) = 0 then ebind (rec r g) (\<lambda>(r, x, g). Inr (r, g)) else Inr (r, g)) (\<lambda>(r, g).
     ebind (rec r g) (\<lambda>(r, action, g).
       let self = ActionNode b acts p ch (Some (Tree Mt r ow)) in
       ebind (case action of None \<Rightarrow> Inl KeyError | Some a \<Rightarrow> visit_child rec self a g) (\<lambda>(self, child, g).
       ebind (calc_union_interval X self p) (\<lambda>union_interval.
       ebind (update_Q self union_interval child) (\<lambda>self.
         Inr (self, g))))))"
| "spawned_visit rec X (ActionNode b acts p ch None) g = Inl AttributeError"
| "spawned_visit rec X (SamplingNode b h msk ch) g = Inl AttributeError"

text \<open>
  The body of the loop of \<^verbatim>\<open>SamplingNode.expand\<close>. A child that still has hidden
  information is a \<^verbatim>\<open>SamplingNode\<close>, which has no attribute \<^verbatim>\<open>spawned_tree\<close>: the test
  \<^verbatim>\<open>node.spawned_tree is not None\<close> that ends the iteration raises for it.
\<close>

definition expand_hidden_state :: "'i env \<Rightarrow> 'i model \<Rightarrow> nat \<Rightarrow> 'i node \<Rightarrow> 'i node result" where
  "expand_hidden_state X M h self =
     (let s = instantiate_hidden_state X (info_set (base self)) h in
      if has_hidden_info X s
      then (if cp (base self) \<noteq> get_current_player X s then Inl AssertionError
            else ebind (index_Vc (Vc (base self)) h) (\<lambda>q.
                 ebind (SamplingNode_init X s (tree_owner (base self)) (Scalar q)) (\<lambda>node.
                 ebind (if CHEAT then eval_model M node else Inr node) (\<lambda>node.
                   Inl AttributeError))))
      else ebind (index_Vc (Vc (base self)) h) (\<lambda>q.
           ebind (ActionNode_init X s (tree_owner (base self)) (Scalar q)) (\<lambda>node.
           ebind (create_spawned_tree X M s) (\<lambda>t.
           ebind (if CHEAT then eval_model M (set_spawned_tree (Some t) node)
                  else Inr (set_spawned_tree (Some t) node)) (\<lambda>node.
             Inr (add_child h node self))))))"

fun expand_hidden_states :: "'i env \<Rightarrow> 'i model \<Rightarrow> nat list \<Rightarrow> 'i node \<Rightarrow> 'i node result" where
  "expand_hidden_states X M [] self = Inr self"
| "expand_hidden_states X M (h # hs) self =
     ebind (expand_hidden_state X M h self) (expand_hidden_states X M hs)"

definition SamplingNode_expand :: "'i env \<Rightarrow> 'i model \<Rightarrow> 'i node \<Rightarrow> 'i node result" where
  "SamplingNode_expand X M self0 =
     ebind (eval_model M self0) (\<lambda>self.
     ebind (expand_hidden_states X M
              (filter (\<lambda>h. H_mask self ! h) [0..<length (H_mask self)]) self) (\<lambda>self.
       Inr (update_base (\<lambda>b. b\<lparr>expanded := True\<rparr>) self)))"

fun visit_step :: "'i visit_fn \<Rightarrow> 'i env \<Rightarrow> 'i model \<Rightarrow> 'i visit_fn" where
  "visit_step rec X M (ActionNode b acts p ch sp) g =
     (let self = ActionNode (b\<lparr>N := N b + 1\<rparr>) acts p ch sp in
      if terminal self then Inr (self, None, g)
      else if \<not> expanded (base self)
      then ebind (ActionNode_expand X M self) (\<lambda>self. Inr (self, None, g))
      else if sp \<noteq> None
      then ebind (spawned_visit rec X self g) (\<lambda>(self, g). Inr (self, None, g))
      else unspawned_visit rec X self g)"
| "visit_step rec X M (SamplingNode b h msk ch) g =
     (let self = SamplingNode (b\<lparr>N := N b + 1\<rparr>) h msk ch in
      ebind (if \<not> expanded (base self) then SamplingNode_expand X M self else Inr self) (\<lambda>self.
      ebind (case H self of None \<Rightarrow> Inl TypeError | Some hv \<Rightarrow> choice g (length hv) hv) (\<lambda>(h, g).
      ebind (visit_child rec self h g) (\<lambda>(self, child, g).
      ebind (calc_union_interval X self (H self)) (\<lambda>union_interval.
      ebind (update_Q self union_interval child) (\<lambda>self.
        Inr (self, None, g)))))))"

text \<open>
  \<^verbatim>\<open>Node.visit\<close>, dispatched on the class of the node. The first argument bounds the
  depth of the recursion, as Python's recursion limit does: beyond it the call raises.
\<close>

primrec visit :: "nat \<Rightarrow> 'i env \<Rightarrow> 'i model \<Rightarrow> 'i visit_fn" where
  "visit 0 X M = (\<lambda>self g. Inl RecursionError)"
| "visit (Suc d) X M = visit_step (visit d X M) X M"

text \<open>
  \<open>k\<close> calls of \<^verbatim>\<open>visit\<close> on one node, one after the other, as a caller makes them;
  the first that raises ends the sequence.
\<close>

fun visit_times :: "nat \<Rightarrow> nat \<Rightarrow> 'i env \<Rightarrow> 'i model \<Rightarrow> 'i node \<Rightarrow> rng \<Rightarrow> ('i node \<times> rng) result" where
  "visit_times 0 d X M self g = Inr (self, g)"
| "visit_times (Suc k) d X M self g =
     ebind (visit d X M self g) (\<lambda>(self, r, g). visit_times k d X M self g)"

section \<open>The end of a visit, and the invariant on intervals\<close>

text \<open>
  \<^verbatim>\<open>unspawned_visit\<close>, \<^verbatim>\<open>spawned_visit\<close> and \<^verbatim>\<open>SamplingNode.visit\<close> end alike: the child
  under the chosen key is visited, the union interval is computed from the weights and
  \<^verbatim>\<open>Q\<close> and the residual are updated. \<open>visit_tail\<close> names these steps for the proofs.
\<close>

definition visit_tail ::
  "'i visit_fn \<Rightarrow> 'i env \<Rightarrow> 'i node \<Rightarrow> nat \<Rightarrow> real list option \<Rightarrow> rng \<Rightarrow> ('i node \<times> rng) result" where
  "visit_tail rec X mid key probs g =
     ebind (visit_child rec mid key g) (\<lambda>(self, child, g).
     ebind (calc_union_interval X self probs) (\<lambda>union_interval.
     ebind (update_Q self union_interval child) (\<lambda>self. Inr (self, g))))"

text \<open>
  An interval is ordered when its lower bound is at most its upper bound. \<open>node_ok\<close>
  says so of \<^verbatim>\<open>Q\<close> and of the residual, once it is an array, at a node, at all nodes
  below it and in the spawned trees that hang there.
\<close>

fun residual_ok :: "interval_like \<Rightarrow> bool" where
  "residual_ok (Scalar r) = True"
| "residual_ok (Interval (l, u)) = (l \<le> u)"

definition base_ok :: "'i node_base \<Rightarrow> bool" where
  "base_ok b = (fst (Q b) \<le> snd (Q b) \<and> residual_ok (residual_Q_to_V b))"

fun node_ok :: "'i node \<Rightarrow> bool" and tree_ok :: "'i tree \<Rightarrow> bool" where
  "node_ok (ActionNode b acts p ch sp) =
     (base_ok b \<and> (\<forall>e \<in> set ch. node_ok (snd (snd e))) \<and> (\<forall>t \<in> set_option sp. tree_ok t))"
| "node_ok (SamplingNode b h msk ch) = (base_ok b \<and> (\<forall>e \<in> set ch. node_ok (snd (snd e))))"
| "tree_ok (Tree Mt r ow) = node_ok r"

text \<open>
  Modelled from the spec: \<^verbatim>\<open>perturb_prob_simplex\<close> is not among the sources. The spec
  gives its result as the minimum and the maximum of the mixture over the perturbed
  weights, so whenever it returns, the lower bound is at most the upper bound.
\<close>

definition perturb_ordered :: "'i env \<Rightarrow> bool" where
  "perturb_ordered X =
     (\<forall>ivs w eps l u. perturb_prob_simplex X ivs w eps = Inr (l, u) \<longrightarrow> l \<le> u)"

text \<open>
  A child as an iteration of the loop of \<^verbatim>\<open>ActionNode.expand\<close> leaves it: constructed
  for the action and evaluated at once.
\<close>

definition fresh_child :: "'i env \<Rightarrow> 'i model \<Rightarrow> 'i node \<Rightarrow> action \<Rightarrow> 'i node \<Rightarrow> bool" where
  "fresh_child X M self a node' =
     (\<exists>node. construct_child X self a = Inr node \<and> eval_model M node = Inr node')"

section \<open>A small game for the concrete runs\<close>

text \<open>
  Information sets are numbered. In \<open>0\<close> player 0 chooses between two actions, which end
  the game in \<open>1\<close> (player 0 gets 1) and in \<open>2\<close> (player 0 gets 0). In \<open>11\<close> player 1
  is to move and holds something hidden, with two legal hidden states out of three, which
  lead to \<open>20\<close> and \<open>21\<close>; there, and in their redacted form \<open>30\<close>, player 1 chooses
  between the same two endings. The stand-in for \<^verbatim>\<open>perturb_prob_simplex\<close> widens the
  mixture of the children's values by the tolerance on either side.
\<close>

definition demo_perturb :: "interval list \<Rightarrow> real list \<Rightarrow> real \<Rightarrow> interval result" where
  "demo_perturb ivs w eps =
     (let m = sum_list (map2 (\<lambda>(l, u) x. l * x) ivs w) in Inr (m - \<bar>eps\<bar>, m + \<bar>eps\<bar>))"

definition demo_env :: "nat env" where
  "demo_env =
     \<lparr> get_current_player = (\<lambda>s. if s = 11 \<or> s = 20 \<or> s = 21 \<or> s = 30 then 1 else 0),
       get_game_outcome = (\<lambda>s. if s = 1 then Some [0 \<mapsto> 1, 1 \<mapsto> 0]
                                else if s = 2 then Some [0 \<mapsto> 0, 1 \<mapsto> 1] else None),
       get_actions = (\<lambda>s. if s = 0 \<or> s = 20 \<or> s = 21 \<or> s = 30 then [0, 1] else []),
       info_apply = (\<lambda>s a. Suc a),
       has_hidden_info = (\<lambda>s. s = 11),
       get_H_mask = (\<lambda>s. if s = 11 then [True, True, False] else []),
       instantiate_hidden_state = (\<lambda>s h. 20 + h),
       clone = (\<lambda>s. s),
       num_cards = (\<lambda>s. 2),
       redact_card = (\<lambda>s i. if s = 20 \<or> s = 21 then 30 else s),
       perturb_prob_simplex = demo_perturb \<rparr>"

definition demo_model :: "nat model" where
  "demo_model =
     \<lparr> action_eval = (\<lambda>owner s. ([1 / 2, 1 / 2], 1 / 2, [1 / 4, 3 / 4])),
       hidden_eval = (\<lambda>owner s. ([1 / 4, 1 / 4, 1 / 2], 1 / 2, [1 / 4, 3 / 4, 0])) \<rparr>"

text \<open>An oracle whose output has the wrong length, a negative entry and sum 7.\<close>

definition bad_model :: "nat model" where
  "bad_model =
     \<lparr> action_eval = (\<lambda>owner s. ([- 1, 3, 5], 0, [])),
       hidden_eval = (\<lambda>owner s. ([- 1, 3, 5], 0, [])) \<rparr>"

text \<open>
  The same game, except that the second action hands the move to player 1 in \<open>11\<close>, who
  holds something hidden.
\<close>

definition veiled_env :: "nat env" where
  "veiled_env = demo_env\<lparr>info_apply := (\<lambda>s a. if a = 1 then 11 else Suc a)\<rparr>"

definition demo_rng :: rng where
  "demo_rng = (\<lambda>k. 1 / 4)"

text \<open>The root for information set \<open>0\<close> and owner 0, as built and as evaluated.\<close>

definition demo_root :: "nat node" where
  "demo_root = ActionNode (Node_init demo_env 0 (Some 0) (Scalar 0)) [0, 1] None [] None"

definition demo_root_evaluated :: "nat node" where
  "demo_root_evaluated =
     ActionNode ((Node_init demo_env 0 (Some 0) (Scalar 0))
                   \<lparr>V := Some (1 / 2), Vc := Some [1 / 4, 3 / 4], Q := (1 / 2, 1 / 2)\<rparr>)
       [0, 1] (Some [1 / 2, 1 / 2]) [] None"

text \<open>
  The root after its first visit. Both successors are terminal, so the children carry the
  outcome for owner 0 as \<open>V\<close> and \<open>Q\<close>.
\<close>

definition demo_leaf :: "nat \<Rightarrow> real \<Rightarrow> real \<Rightarrow> nat node" where
  "demo_leaf s q v =
     ActionNode ((Node_init demo_env s (Some 0) (Scalar q))\<lparr>V := Some v, Q := (v, v)\<rparr>) [] None [] None"

definition demo_root_expanded :: "nat node" where
  "demo_root_expanded =
     ActionNode ((Node_init demo_env 0 (Some 0) (Scalar 0))
                   \<lparr>V := Some (1 / 2), Vc := Some [1 / 4, 3 / 4], Q := (1 / 2, 1 / 2),
                    N := 1, expanded := True\<rparr>)
       [0, 1] (Some [1 / 2, 1 / 2])
       [(0, 0, demo_leaf 1 (1 / 4) 1), (1, 1, demo_leaf 2 (3 / 4) 0)] None"

text \<open>
  An expanded node with two evaluated children that were never visited, whose oracle
  values are \<open>1\<close> and \<open>v\<close>.
\<close>

definition tie_child :: "real \<Rightarrow> nat node" where
  "tie_child v =
     ActionNode ((Node_init demo_env 20 (Some 0) (Scalar 0))
                   \<lparr>V := Some v, Vc := Some [1 / 4, 3 / 4], Q := (v, v)\<rparr>)
       [0, 1] (Some [1 / 2, 1 / 2]) [] None"

definition tie_node :: "real \<Rightarrow> nat node" where
  "tie_node v =
     ActionNode ((Node_init demo_env 0 (Some 0) (Scalar 0))
                   \<lparr>V := Some (1 / 2), Vc := Some [1 / 4, 3 / 4], Q := (1 / 2, 1 / 2),
                    N := 1, expanded := True\<rparr>)
       [0, 1] (Some [1 / 2, 1 / 2])
       [(0, 0, tie_child 1), (1, 1, tie_child v)] None"

text \<open>
  The \<^verbatim>\<open>SamplingNode\<close> for information set \<open>11\<close> and owner 0, the root of the tree that
  its expansion spawns for either hidden state, and the child for hidden state \<open>h\<close>, as
  the expansion leaves it.
\<close>

definition demo_sampling :: "nat node" where
  "demo_sampling =
     SamplingNode (Node_init demo_env 11 (Some 0) (Scalar 0)) None [True, True, False] []"

definition demo_spawned_root :: "nat node" where
  "demo_spawned_root =
     ActionNode ((Node_init demo_env 30 None (Scalar 0))\<lparr>tree_owner := Some 1\<rparr>) [0, 1] None [] None"

definition demo_hidden_child :: "nat \<Rightarrow> real \<Rightarrow> nat node" where
  "demo_hidden_child h q =
     ActionNode ((Node_init demo_env (20 + h) (Some 0) (Scalar q))
                   \<lparr>V := Some (1 / 2), Vc := Some [1 / 4, 3 / 4], Q := (1 / 2, 1 / 2)\<rparr>)
       [0, 1] (Some [1 / 2, 1 / 2]) [] (Some (Tree demo_model demo_spawned_root 1))"

text \<open>
  The same nodes further on: a terminal child for any owner, the spawned root after its
  first and after its second visit, and the child for a hidden state after its first
  visit and after its second, which goes through the spawned tree.
\<close>

definition demo_leaf_of :: "nat \<Rightarrow> nat \<Rightarrow> real \<Rightarrow> real \<Rightarrow> nat node" where
  "demo_leaf_of owner s q v =
     ActionNode ((Node_init demo_env s (Some owner) (Scalar q))\<lparr>V := Some v, Q := (v, v)\<rparr>) [] None [] None"

definition demo_spawned_root_expanded :: "nat node" where
  "demo_spawned_root_expanded =
     ActionNode ((Node_init demo_env 30 None (Scalar 0))
                   \<lparr>tree_owner := Some 1, V := Some (1 / 2), Vc := Some [1 / 4, 3 / 4],
                    Q := (1 / 2, 1 / 2), N := 1, expanded := True\<rparr>)
       [0, 1] (Some [1 / 2, 1 / 2])
       [(0, 0, demo_leaf_of 1 1 (1 / 4) 0), (1, 1, demo_leaf_of 1 2 (3 / 4) 1)] None"

definition demo_spawned_root_visited :: "nat node" where
  "demo_spawned_root_visited =
     ActionNode ((Node_init demo_env 30 None (Scalar 0))
                   \<lparr>tree_owner := Some 1, V := Some (1 / 2), Vc := Some [1 / 4, 3 / 4],
                    Q := (9 / 20, 11 / 20), N := 2, expanded := True,
                    residual_Q_to_V := Interval (- 1 / 40, 1 / 40)\<rparr>)
       [0, 1] (Some [1 / 2, 1 / 2])
       [(0, 0, demo_leaf_of 1 1 (1 / 4) 0),
        (1, 1, update_base (\<lambda>b. b\<lparr>N := 1\<rparr>) (demo_leaf_of 1 2 (3 / 4) 1))] None"

definition demo_hidden_child_expanded :: "nat \<Rightarrow> real \<Rightarrow> nat node" where
  "demo_hidden_child_expanded h q =
     ActionNode ((Node_init demo_env (20 + h) (Some 0) (Scalar q))
                   \<lparr>V := Some (1 / 2), Vc := Some [1 / 4, 3 / 4], Q := (1 / 2, 1 / 2),
                    N := 1, expanded := True\<rparr>)
       [0, 1] (Some [1 / 2, 1 / 2])
       [(0, 0, demo_leaf 1 (1 / 4) 1), (1, 1, demo_leaf 2 (3 / 4) 0)]
       (Some (Tree demo_model demo_spawned_root 1))"

definition demo_hidden_child_visited :: "nat \<Rightarrow> real \<Rightarrow> nat node" where
  "demo_hidden_child_visited h q =
     ActionNode ((Node_init demo_env (20 + h) (Some 0) (Scalar q))
                   \<lparr>V := Some (1 / 2), Vc := Some [1 / 4, 3 / 4], Q := (9 / 20, 11 / 20),
                    N := 2, expanded := True, residual_Q_to_V := Interval (- 1 / 40, 1 / 40)\<rparr>)
       [0, 1] (Some [1 / 2, 1 / 2])
       [(0, 0, demo_leaf 1 (1 / 4) 1),
        (1, 1, update_base (\<lambda>b. b\<lparr>N := 1\<rparr>) (demo_leaf 2 (3 / 4) 0))]
       (Some (Tree demo_model demo_spawned_root_visited 1))"

text \<open>The root for information set \<open>0\<close> after its second visit, which selects action 0.\<close>

definition demo_root_visited :: "nat node" where
  "demo_root_visited =
     ActionNode ((Node_init demo_env 0 (Some 0) (Scalar 0))
                   \<lparr>V := Some (1 / 2), Vc := Some [1 / 4, 3 / 4], Q := (9 / 20, 11 / 20),
                    N := 2, expanded := True, residual_Q_to_V := Interval (- 1 / 40, 1 / 40)\<rparr>)
       [0, 1] (Some [1 / 2, 1 / 2])
       [(0, 0, update_base (\<lambda>b. b\<lparr>N := 1\<rparr>) (demo_leaf 1 (1 / 4) 1)),
        (1, 1, demo_leaf 2 (3 / 4) 0)] None"

section \<open>Rounding to a double\<close>

lemma round_half_even_of_int [simp]: "round_half_even (of_int k) = k"
  by (simp add: round_half_even_def)

lemma round_half_even_cases:
  "round_half_even x = \<lfloor>x\<rfloor> \<or> round_half_even x = \<lfloor>x\<rfloor> + 1"
  by (simp add: round_half_even_def Let_def)

lemma round_half_even_floor_eq:
  assumes "\<lfloor>x\<rfloor> = \<lfloor>y\<rfloor>" and "x \<le> y"
  shows "round_half_even x \<le> round_half_even y"
  using assms by (simp add: round_half_even_def Let_def)

lemma round_half_even_mono:
  assumes "x \<le> y"
  shows "round_half_even x \<le> round_half_even y"
proof (cases "\<lfloor>x\<rfloor> = \<lfloor>y\<rfloor>")
  case True
  then show ?thesis using assms by (rule round_half_even_floor_eq)
next
  case False
  with assms have "\<lfloor>x\<rfloor> < \<lfloor>y\<rfloor>"
    by (simp add: floor_mono order.not_eq_order_implies_strict)
  moreover have "round_half_even x \<le> \<lfloor>x\<rfloor> + 1" "\<lfloor>y\<rfloor> \<le> round_half_even y"
    using round_half_even_cases [of x] round_half_even_cases [of y] by auto
  ultimately show ?thesis by linarith
qed

lemma round_half_even_minus: "round_half_even (- x) = - round_half_even x"
proof (cases "x \<in> \<int>")
  case True
  then obtain k where "x = of_int k" by (auto elim: Ints_cases)
  then have "- x = of_int (- k)" by simp
  then show ?thesis
    unfolding \<open>x = of_int k\<close> using round_half_even_of_int by metis
next
  case False
  then have ne: "x \<noteq> of_int \<lfloor>x\<rfloor>"
    by (metis Ints_of_int)
  then have fl: "\<lfloor>- x\<rfloor> = - \<lfloor>x\<rfloor> - 1"
    by (simp add: ceiling_altdef floor_minus)
  have "x - of_int \<lfloor>x\<rfloor> < 1" by linarith
  with ne show ?thesis
    unfolding round_half_even_def Let_def fl
    by (auto simp add: algebra_simps)
qed

lemma round_half_even_error: "\<bar>of_int (round_half_even x) - x\<bar> \<le> 1 / 2"
  unfolding round_half_even_def Let_def
  by (auto simp add: abs_if) linarith+

lemma exponent_bounds:
  assumes "0 < x"
  shows "2 powi exponent x \<le> x" and "x < 2 powi (exponent x + 1)"
proof -
  have "2 powi exponent x \<le> x \<and> x < 2 powi (exponent x + 1)"
  proof (cases "1 \<le> x")
    case True
    define n where "n = \<lfloor>x\<rfloor>"
    have n: "0 < n" using True by (simp add: n_def)
    from bitlen_bounds [OF n] have lo: "2 ^ nat (bitlen n - 1) \<le> n" and hi: "n < 2 ^ nat (bitlen n)"
      by simp_all
    have b: "1 \<le> bitlen n"
    proof (rule ccontr)
      assume "\<not> 1 \<le> bitlen n"
      then have "nat (bitlen n) = 0" by simp
      with hi n show False by simp
    qed
    have e: "exponent x = bitlen n - 1"
      using True by (simp add: exponent_def n_def)
    have "real_of_int (2 ^ nat (bitlen n - 1)) \<le> real_of_int n"
      using lo by (simp only: of_int_le_iff)
    also have "\<dots> \<le> x" by (simp add: n_def)
    finally have 1: "2 powi exponent x \<le> x"
      using b by (simp add: e power_int_def)
    have "n + 1 \<le> 2 ^ nat (bitlen n)" using hi by simp
    then have "real_of_int (n + 1) \<le> real_of_int (2 ^ nat (bitlen n))"
      by (simp only: of_int_le_iff)
    moreover have "x < real_of_int (n + 1)" by (simp add: n_def)
    ultimately have 2: "x < 2 powi (exponent x + 1)"
      using b by (simp add: e power_int_def)
    from 1 2 show ?thesis ..
  next
    case False
    define y where "y = 1 / x"
    have y: "1 < y" using False assms by (simp add: y_def)
    define m where "m = \<lceil>y\<rceil> - 1"
    have m: "0 < m" using y by (simp add: m_def)
    from bitlen_bounds [OF m] have lo: "2 ^ nat (bitlen m - 1) \<le> m" and hi: "m < 2 ^ nat (bitlen m)"
      by simp_all
    have b: "1 \<le> bitlen m"
    proof (rule ccontr)
      assume "\<not> 1 \<le> bitlen m"
      then have "nat (bitlen m) = 0" by simp
      with hi m show False by simp
    qed
    have e: "exponent x = - bitlen m"
      using False by (simp add: exponent_def m_def y_def)
    have "m + 1 \<le> 2 ^ nat (bitlen m)" using hi by simp
    then have "real_of_int (m + 1) \<le> real_of_int (2 ^ nat (bitlen m))"
      by (simp only: of_int_le_iff)
    moreover have "y \<le> real_of_int (m + 1)" by (simp add: m_def)
    ultimately have "y \<le> 2 ^ nat (bitlen m)" by simp
    then have "1 / 2 ^ nat (bitlen m) \<le> x"
      using assms by (simp add: y_def field_simps)
    then have 1: "2 powi exponent x \<le> x"
      using b by (simp add: e power_int_def field_simps)
    have "real_of_int (2 ^ nat (bitlen m - 1)) \<le> real_of_int m"
      using lo by (simp only: of_int_le_iff)
    also have "real_of_int m < y" by (simp add: m_def) linarith
    finally have "2 ^ nat (bitlen m - 1) < y" by simp
    then have "x < 1 / 2 ^ nat (bitlen m - 1)"
      using assms by (simp add: y_def field_simps)
    moreover have "(2 :: real) powi (exponent x + 1) = 1 / 2 ^ nat (bitlen m - 1)"
    proof (cases "bitlen m = 1")
      case True
      then show ?thesis by (simp add: e)
    next
      case False
      with b have "- bitlen m + 1 < 0" by simp
      moreover have "nat (- (- bitlen m + 1)) = nat (bitlen m - 1)" by simp
      ultimately show ?thesis
        by (simp add: e power_int_def field_simps)
    qed
    ultimately have 2: "x < 2 powi (exponent x + 1)" by simp
    from 1 2 show ?thesis ..
  qed
  then show "2 powi exponent x \<le> x" and "x < 2 powi (exponent x + 1)" by simp_all
qed

lemma exponent_mono:
  assumes "0 < x" and "x \<le> y"
  shows "exponent x \<le> exponent y"
proof -
  have "0 < y" using assms by simp
  from exponent_bounds(1) [OF assms(1)] exponent_bounds(2) [OF this] assms(2)
  have "(2 :: real) powi exponent x < 2 powi (exponent y + 1)" by simp
  then have "exponent x < exponent y + 1"
    by (metis not_less_iff_gr_or_eq one_less_numeral_iff power_int_strict_increasing semiring_norm(76))
  then show ?thesis by simp
qed

lemma ulp_pos [simp]: "0 < ulp x"
  by (simp add: ulp_def)

lemma ulp_nonneg [simp]: "0 \<le> ulp x"
  by (simp add: ulp_def)

lemma ulp_neq_0 [simp]: "ulp x \<noteq> 0"
  by (simp add: ulp_def)

lemma ulp_minus [simp]: "ulp (- x) = ulp x"
  by (simp add: ulp_def)

lemma float64_minus [simp]: "float64 (- x) = - float64 x"
  by (simp add: float64_def round_half_even_minus)

lemma float64_nonneg:
  assumes "0 \<le> x"
  shows "0 \<le> float64 x"
proof -
  have "0 \<le> x / ulp x" using assms by simp
  from round_half_even_mono [OF this] have "0 \<le> round_half_even (x / ulp x)"
    using round_half_even_of_int [of 0] by simp
  then show ?thesis by (simp add: float64_def)
qed

lemma float64_zero [simp]: "float64 0 = 0"
  using round_half_even_of_int [of 0] by (simp add: float64_def)

lemma round_half_even_le:
  assumes "x \<le> of_int k"
  shows "round_half_even x \<le> k"
  using round_half_even_mono [OF assms] by simp

lemma round_half_even_ge:
  assumes "of_int k \<le> x"
  shows "k \<le> round_half_even x"
  using round_half_even_mono [OF assms] by simp

lemma powi_diff: "(2 :: real) powi (a - b) = 2 powi a / 2 powi b"
  by (simp add: power_int_diff)

lemma ulp_normal:
  assumes "0 < x" and "- 1022 \<le> exponent x"
  shows "ulp x = 2 powi exponent x / 2 ^ 52"
  using assms by (simp add: ulp_def max_def powi_diff)

lemma ulp_subnormal:
  assumes "0 < x" and "exponent x \<le> - 1022"
  shows "ulp x = 2 powi (- 1022) / 2 ^ 52"
  using assms by (simp add: ulp_def max_def powi_diff)

lemma float64_normal_range:
  assumes "0 < x" and "- 1022 \<le> exponent x"
  shows "2 powi exponent x \<le> float64 x" and "float64 x \<le> 2 powi (exponent x + 1)"
proof -
  let ?p = "(2 :: real) powi exponent x"
  have u: "ulp x = ?p / 2 ^ 52" using assms by (rule ulp_normal)
  have p: "0 < ?p" by simp
  from exponent_bounds [OF assms(1)] have lo: "?p \<le> x" and hi: "x < 2 * ?p"
    by (simp_all add: power_int_add)
  have "of_int (2 ^ 52) \<le> x / ulp x"
    using lo p by (simp add: u field_simps)
  from round_half_even_ge [OF this] have "real_of_int (2 ^ 52) \<le> of_int (round_half_even (x / ulp x))"
    by (simp only: of_int_le_iff)
  then have "2 ^ 52 * ulp x \<le> float64 x"
    by (simp add: float64_def)
  then show "?p \<le> float64 x" by (simp add: u)
  have "x / ulp x \<le> of_int (2 ^ 53)"
    using hi p by (simp add: u field_simps)
  from round_half_even_le [OF this] have "of_int (round_half_even (x / ulp x)) \<le> real_of_int (2 ^ 53)"
    by (simp only: of_int_le_iff)
  then have "float64 x \<le> 2 ^ 53 * ulp x"
    by (simp add: float64_def)
  then show "float64 x \<le> 2 powi (exponent x + 1)" by (simp add: u power_int_add)
qed

lemma float64_subnormal_range:
  assumes "0 < x" and "exponent x \<le> - 1022"
  shows "float64 x \<le> 2 powi (- 1021)"
proof -
  let ?p = "(2 :: real) powi (- 1022)"
  have u: "ulp x = ?p / 2 ^ 52" using assms by (rule ulp_subnormal)
  have p: "0 < ?p" by simp
  from exponent_bounds(2) [OF assms(1)] have "x < 2 powi (exponent x + 1)" .
  also have "\<dots> \<le> 2 powi (- 1021)"
    using assms(2) by (intro power_int_increasing) simp_all
  also have "\<dots> = 2 * ?p"
    using power_int_add [of "2 :: real" "- 1022" 1] by simp
  finally have hi: "x < 2 * ?p" .
  have "x / ulp x \<le> of_int (2 ^ 53)"
    using hi p by (simp add: u field_simps)
  from round_half_even_le [OF this] have "of_int (round_half_even (x / ulp x)) \<le> real_of_int (2 ^ 53)"
    by (simp only: of_int_le_iff)
  then have "float64 x \<le> 2 ^ 53 * ulp x"
    by (simp add: float64_def)
  also have "\<dots> = 2 * ?p" by (simp add: u)
  also have "\<dots> = 2 powi (- 1021)"
    using power_int_add [of "2 :: real" "- 1022" 1] by simp
  finally show ?thesis .
qed

lemma float64_mono_pos:
  assumes "0 < x" and "x \<le> y"
  shows "float64 x \<le> float64 y"
proof -
  have y: "0 < y" using assms by simp
  let ?ex = "max (exponent x) (- 1022)" and ?ey = "max (exponent y) (- 1022)"
  from exponent_mono [OF assms] have le: "?ex \<le> ?ey" by simp
  show ?thesis
  proof (cases "?ex = ?ey")
    case True
    then have "ulp x = ulp y" using assms(1) y by (simp add: ulp_def)
    moreover have "x / ulp y \<le> y / ulp y" using assms(2) by (simp add: divide_right_mono)
    ultimately show ?thesis
      by (simp add: float64_def round_half_even_mono)
  next
    case False
    from le False have less: "?ex < ?ey" by (rule le_neq_trans)
    then have ny: "- 1022 \<le> exponent y" and ey: "?ey = exponent y"
      by (auto simp add: max_def split: if_splits)
    have "float64 x \<le> 2 powi (?ex + 1)"
    proof (cases "- 1022 \<le> exponent x")
      case True
      with float64_normal_range(2) [OF assms(1) True] show ?thesis by (simp add: max_def)
    next
      case False
      then have "exponent x \<le> - 1022" by simp
      from float64_subnormal_range [OF assms(1) this] False show ?thesis by (simp add: max_def)
    qed
    also have "\<dots> \<le> 2 powi exponent y"
    proof (rule power_int_increasing)
      from less ey show "?ex + 1 \<le> exponent y" by linarith
    qed simp
    also have "\<dots> \<le> float64 y"
      by (rule float64_normal_range(1) [OF y ny])
    finally show ?thesis .
  qed
qed

lemma float64_mono:
  assumes "x \<le> y"
  shows "float64 x \<le> float64 y"
proof -
  consider "0 < x" | "x \<le> 0" "0 \<le> y" | "y < 0" by linarith
  then show ?thesis
  proof cases
    case 1
    then show ?thesis using assms by (rule float64_mono_pos)
  next
    case 2
    from 2(1) have "0 \<le> float64 (- x)" by (intro float64_nonneg) simp
    then have "float64 x \<le> 0" by simp
    also have "0 \<le> float64 y" using 2(2) by (rule float64_nonneg)
    finally show ?thesis .
  next
    case 3
    then have "0 < - y" "- y \<le> - x" using assms by simp_all
    from float64_mono_pos [OF this] show ?thesis by simp
  qed
qed

lemma float64_representable_pos:
  assumes "0 < k" and "k < 2 ^ 53" and "- 1074 \<le> e"
  shows "float64 (of_int k * 2 powi e) = of_int k * 2 powi e"
proof -
  define x where "x = real_of_int k * 2 powi e"
  define E where "E = max (exponent x) (- 1022)"
  have x: "0 < x" using assms(1) by (simp add: x_def)
  have "real_of_int k < real_of_int (2 ^ 53)"
    using assms(2) by (simp only: of_int_less_iff)
  then have "x < 2 ^ 53 * 2 powi e" by (simp add: x_def)
  also have "\<dots> = 2 powi (e + 53)"
    using power_int_add [of "2 :: real" e 53] by simp
  finally have "x < 2 powi (e + 53)" .
  with exponent_bounds(1) [OF x] have "(2 :: real) powi exponent x < 2 powi (e + 53)" by simp
  then have "exponent x < e + 53"
    by (metis not_less_iff_gr_or_eq one_less_numeral_iff power_int_strict_increasing semiring_norm(76))
  with assms(3) have E: "E \<le> e + 52" by (simp add: E_def)
  define d where "d = nat (e + 52 - E)"
  have u: "ulp x = 2 powi (E - 52)" using x by (simp add: ulp_def E_def)
  have "(2 :: real) powi e / 2 powi (E - 52) = 2 powi (e - (E - 52))"
    by (simp add: power_int_diff)
  also have "e - (E - 52) = int d" using E by (simp add: d_def)
  finally have r: "(2 :: real) powi e / ulp x = 2 ^ d"
    by (simp add: u)
  have "x / ulp x = of_int k * ((2 :: real) powi e / ulp x)" by (simp add: x_def)
  also have "\<dots> = of_int (k * 2 ^ d)" by (simp only: r of_int_mult of_int_power of_int_numeral)
  finally have q: "x / ulp x = of_int (k * 2 ^ d)" .
  then have "round_half_even (x / ulp x) = k * 2 ^ d"
    by (simp only: round_half_even_of_int)
  then have "float64 x = of_int (k * 2 ^ d) * ulp x"
    by (simp only: float64_def)
  also have "\<dots> = x / ulp x * ulp x" by (simp only: q)
  also have "\<dots> = x" by simp
  finally show ?thesis by (simp only: x_def)
qed

lemma float64_representable:
  assumes "\<bar>k\<bar> \<le> 2 ^ 53" and "- 1074 \<le> e"
  shows "float64 (of_int k * 2 powi e) = of_int k * 2 powi e"
proof -
  have pos: "float64 (of_int j * 2 powi e) = of_int j * 2 powi e" if "0 < j" "j \<le> 2 ^ 53" for j
  proof (cases "j = 2 ^ 53")
    case True
    have "real_of_int j * 2 powi e = of_int (2 ^ 52) * 2 powi (e + 1)"
      using power_int_add [of "2 :: real" e 1] by (simp add: True)
    moreover have "float64 (of_int (2 ^ 52) * 2 powi (e + 1)) = of_int (2 ^ 52) * 2 powi (e + 1)"
      using assms(2) by (intro float64_representable_pos) simp_all
    ultimately show ?thesis by simp
  next
    case False
    with that have "j < 2 ^ 53" by simp
    with that(1) show ?thesis using assms(2) by (intro float64_representable_pos)
  qed
  consider "0 < k" | "k = 0" | "k < 0" by linarith
  then show ?thesis
  proof cases
    case 1
    with assms(1) show ?thesis by (intro pos) simp_all
  next
    case 2
    then show ?thesis by simp
  next
    case 3
    with assms(1) have "float64 (of_int (- k) * 2 powi e) = of_int (- k) * 2 powi e"
      by (intro pos) simp_all
    then show ?thesis
      using float64_minus [of "of_int k * 2 powi e"] by simp
  qed
qed

lemma float64_form:
  "\<exists>k e. \<bar>k\<bar> \<le> 2 ^ 53 \<and> - 1074 \<le> e \<and> float64 x = of_int k * 2 powi e"
proof -
  have pos: "\<exists>k e. \<bar>k\<bar> \<le> 2 ^ 53 \<and> - 1074 \<le> e \<and> float64 y = of_int k * 2 powi e" if y: "0 < y" for y
  proof -
    let ?E = "max (exponent y) (- 1022)"
    let ?k = "round_half_even (y / ulp y)"
    have u: "ulp y = 2 powi (?E - 52)" using y by (simp add: ulp_def)
    have "y < 2 powi (exponent y + 1)" by (rule exponent_bounds(2) [OF y])
    also have "\<dots> \<le> 2 powi (?E + 1)"
      by (intro power_int_increasing) simp_all
    also have "\<dots> = 2 ^ 53 * ulp y"
      using power_int_add [of "2 :: real" "?E - 52" 53] by (simp add: u ac_simps)
    finally have "y / ulp y \<le> of_int (2 ^ 53)"
      by (simp add: pos_divide_le_eq)
    from round_half_even_le [OF this] have "?k \<le> 2 ^ 53" .
    moreover have "0 \<le> y / ulp y" using y by simp
    from round_half_even_ge [of 0, simplified, OF this] have "0 \<le> ?k" .
    ultimately have "\<bar>?k\<bar> \<le> 2 ^ 53" by simp
    moreover have "- 1074 \<le> ?E - 52" by simp
    moreover have "float64 y = of_int ?k * 2 powi (?E - 52)"
      by (simp add: float64_def u)
    ultimately show ?thesis by blast
  qed
  consider "0 < x" | "x = 0" | "x < 0" by linarith
  then show ?thesis
  proof cases
    case 1
    then show ?thesis by (rule pos)
  next
    case 2
    have "\<bar>0 :: int\<bar> \<le> 2 ^ 53 \<and> - 1074 \<le> (0 :: int) \<and> float64 0 = of_int 0 * 2 powi 0" by simp
    with 2 show ?thesis by blast
  next
    case 3
    then have "0 < - x" by simp
    from pos [OF this] obtain k e where "\<bar>k\<bar> \<le> 2 ^ 53" "- 1074 \<le> e" "float64 (- x) = of_int k * 2 powi e"
      by blast
    then have "\<bar>- k\<bar> \<le> 2 ^ 53 \<and> - 1074 \<le> e \<and> float64 x = of_int (- k) * 2 powi e"
      by simp
    then show ?thesis by blast
  qed
qed

lemma float64_idem [simp]: "float64 (float64 x) = float64 x"
proof -
  from float64_form [of x] obtain k e where "\<bar>k\<bar> \<le> 2 ^ 53" "- 1074 \<le> e" "float64 x = of_int k * 2 powi e"
    by blast
  with float64_representable [of k e] show ?thesis by simp
qed

lemma float64_error: "\<bar>float64 x - x\<bar> \<le> \<bar>x\<bar> / 2 ^ 53 + 1 / 2 ^ 1075"
proof -
  have half: "\<bar>float64 x - x\<bar> \<le> ulp x / 2"
  proof -
    have "float64 x - x = (of_int (round_half_even (x / ulp x)) - x / ulp x) * ulp x"
      by (simp add: float64_def field_simps)
    then have "\<bar>float64 x - x\<bar> = \<bar>of_int (round_half_even (x / ulp x)) - x / ulp x\<bar> * ulp x"
      by (simp add: abs_mult)
    also have "\<dots> \<le> 1 / 2 * ulp x"
      by (intro mult_right_mono round_half_even_error) simp
    finally show ?thesis by simp
  qed
  have "ulp x \<le> \<bar>x\<bar> / 2 ^ 52 + 1 / 2 ^ 1074" if "x \<noteq> 0"
  proof (cases "- 1022 \<le> exponent \<bar>x\<bar>")
    case True
    with that have "ulp \<bar>x\<bar> = 2 powi exponent \<bar>x\<bar> / 2 ^ 52" by (intro ulp_normal) simp_all
    moreover have "2 powi exponent \<bar>x\<bar> \<le> \<bar>x\<bar>" using that by (intro exponent_bounds) simp
    ultimately have "ulp \<bar>x\<bar> \<le> \<bar>x\<bar> / 2 ^ 52" by (simp add: divide_right_mono)
    moreover have "ulp \<bar>x\<bar> = ulp x" by (simp add: ulp_def)
    ultimately show ?thesis by (simp add: add_increasing2)
  next
    case False
    then have "max (exponent \<bar>x\<bar>) (- 1022) = - 1022"
      by (simp add: max_def)
    then have "ulp x = 2 powi (- 1074)" by (simp add: ulp_def)
    also have "\<dots> = 1 / 2 ^ 1074" by (simp add: power_int_def field_simps)
    finally show ?thesis by simp
  qed
  show ?thesis
  proof (cases "x = 0")
    case True
    then show ?thesis by simp
  next
    case False
    from half this [THEN \<open>x \<noteq> 0 \<Longrightarrow> ulp x \<le> \<bar>x\<bar> / 2 ^ 52 + 1 / 2 ^ 1074\<close>]
    have "\<bar>float64 x - x\<bar> \<le> (\<bar>x\<bar> / 2 ^ 52 + 1 / 2 ^ 1074) / 2" by simp
    also have "\<dots> = \<bar>x\<bar> / 2 ^ 53 + 1 / 2 ^ 1075" by simp
    finally show ?thesis .
  qed
qed

lemma float64_dyadic:
  assumes "\<bar>k\<bar> \<le> 2 ^ 53" and "n \<le> 1074"
  shows "float64 (of_int k / 2 ^ n) = of_int k / 2 ^ n"
proof -
  have "(2 :: real) powi (- int n) = 1 / 2 ^ n"
    by (simp add: power_int_def field_simps)
  with float64_representable [OF assms(1), of "- int n"] assms(2) show ?thesis
    by simp
qed

lemma float64_of_int:
  assumes "\<bar>k\<bar> \<le> 2 ^ 53"
  shows "float64 (of_int k) = of_int k"
  using float64_dyadic [OF assms, of 0] by simp

lemma float64_small [simp]:
  "float64 1 = 1"
  "float64 2 = 2"
  "float64 (1 / 2) = 1 / 2"
  "float64 (1 / 4) = 1 / 4"
  "float64 (3 / 4) = 3 / 4"
  "float64 (3 / 2) = 3 / 2"
  "float64 (1 / 8) = 1 / 8"
  "float64 (3 / 8) = 3 / 8"
  "float64 (5 / 8) = 5 / 8"
  using float64_of_int [of 1] float64_of_int [of 2] float64_dyadic [of 1 1] float64_dyadic [of 1 2]
    float64_dyadic [of 3 2] float64_dyadic [of 3 1] float64_dyadic [of 1 3] float64_dyadic [of 3 3]
    float64_dyadic [of 5 3]
  by simp_all

lemma float64_le_representable:
  assumes "x \<le> float64 y"
  shows "float64 x \<le> float64 y"
  using float64_mono [OF assms] by simp

lemma float64_threshold_one: "float64 (1 - double_1e8) = 9007199164668999 / 2 ^ 53"
  by code_simp

lemma np_sum_short:
  "length xs < 8 \<Longrightarrow> np_sum xs = foldl (\<lambda>res x. float64 (res + x)) 0 xs"
  by (simp add: np_sum.simps [of xs] sum_loop_def)

section \<open>Basic facts\<close>

lemma ebind_Inr [simp]: "ebind (Inr x) f = f x"
  by (simp add: ebind_def)

lemma ebind_Inl [simp]: "ebind (Inl e) f = Inl e"
  by (simp add: ebind_def)

lemma ebind_eq_Inr: "ebind m f = Inr y \<longleftrightarrow> (\<exists>x. m = Inr x \<and> f x = Inr y)"
  by (cases m) simp_all






lemma double_1e6_pos: "0 < double_1e6"
  by (simp add: double_1e6_def)



section \<open>The legality mask of a SamplingNode\<close>



text \<open>
  A masked mass that is the double \<^verbatim>\<open>1e-6\<close> itself is not below it: the entries are
  renormalised.
\<close>

lemma threshold_mass_is_renormalised:
  "np_sum (map2 (\<lambda>x m. x * of_bool m) [double_1e6, 0, 1] [True, True, False]) = double_1e6
   \<and> apply_H_mask [double_1e6, 0, 1] [True, True, False] = Inr [1, 0, 0]"
proof -
  have same: "float64 double_1e6 = double_1e6"
    using float64_dyadic [of 4722366482869645 72] by (simp add: double_1e6_def)
  have "0 < double_1e6"
    by (rule double_1e6_pos)
  with same show ?thesis
    by (simp add: apply_H_mask_def imul_mask_def np_sum_short)
qed



lemma Node_init_sel [simp]:
  "info_set (Node_init X s owner q) = s"
  "cp (Node_init X s owner q) = get_current_player X s"
  "game_outcome (Node_init X s owner q) = get_game_outcome X s"
  "Q (Node_init X s owner q) = to_interval q"
  "N (Node_init X s owner q) = 0"
  "tree_owner (Node_init X s owner q) = owner"
  "residual_Q_to_V (Node_init X s owner q) = Scalar 0"
  "V (Node_init X s owner q) = None"
  "Vc (Node_init X s owner q) = None"
  "expanded (Node_init X s owner q) = False"
  by (simp_all add: Node_init_def)

lemma ActionNode_init_nonterminal:
  "get_game_outcome X s = None \<Longrightarrow>
     ActionNode_init X s owner q = Inr (ActionNode (Node_init X s owner q) (get_actions X s) None [] None)"
  by (simp add: ActionNode_init_def Let_def)

lemma ActionNode_init_terminal:
  "get_game_outcome X s = Some outcome \<Longrightarrow>
     ActionNode_init X s owner q =
       (case owner of None \<Rightarrow> Inl KeyError
        | Some p \<Rightarrow> (case outcome p of None \<Rightarrow> Inl KeyError
            | Some v \<Rightarrow> Inr (ActionNode ((Node_init X s owner q)\<lparr>V := Some v, Q := (v, v)\<rparr>)
                              (get_actions X s) None [] None)))"
  by (simp add: ActionNode_init_def Let_def split: option.splits)

lemma demo_env_sel [simp]:
  "get_current_player demo_env s = (if s = 11 \<or> s = 20 \<or> s = 21 \<or> s = 30 then 1 else 0)"
  "get_game_outcome demo_env s = (if s = 1 then Some [0 \<mapsto> 1, 1 \<mapsto> 0]
                                else if s = 2 then Some [0 \<mapsto> 0, 1 \<mapsto> 1] else None)"
  "get_actions demo_env s = (if s = 0 \<or> s = 20 \<or> s = 21 \<or> s = 30 then [0, 1] else [])"
  "info_apply demo_env s a = Suc a"
  "has_hidden_info demo_env s = (s = 11)"
  "get_H_mask demo_env s = (if s = 11 then [True, True, False] else [])"
  "instantiate_hidden_state demo_env s h = 20 + h"
  "clone demo_env s = s"
  "num_cards demo_env s = 2"
  "redact_card demo_env s i = (if s = 20 \<or> s = 21 then 30 else s)"
  "perturb_prob_simplex demo_env = demo_perturb"
  by (simp_all add: demo_env_def)

lemma demo_model_sel [simp]:
  "action_eval demo_model owner s = ([1 / 2, 1 / 2], 1 / 2, [1 / 4, 3 / 4])"
  "hidden_eval demo_model owner s = ([1 / 4, 1 / 4, 1 / 2], 1 / 2, [1 / 4, 3 / 4, 0])"
  by (simp_all add: demo_model_def)

section \<open>Terminal nodes and the owner\<close>

text \<open>
  Claim C9. A terminal \<^verbatim>\<open>ActionNode\<close> reads \<^verbatim>\<open>game_outcome[tree_owner]\<close> in its
  constructor: built with the default owner \<^verbatim>\<open>None\<close> it raises there, and it is built
  only for an owner that is a key of the outcome, whose value becomes \<^verbatim>\<open>V\<close> and \<^verbatim>\<open>Q\<close>.
  \<^verbatim>\<open>create_spawned_tree\<close> builds its root with the default owner, before the tree assigns
  one, so it raises whenever the redacted clone is terminal.
\<close>

theorem terminal_ActionNode_reads_owner:
  assumes "get_game_outcome X s = Some outcome"
  shows "ActionNode_init X s None initQ = Inl KeyError
       \<and> (\<forall>owner n. ActionNode_init X s owner initQ = Inr n \<longrightarrow>
             (\<exists>p v. owner = Some p \<and> outcome p = Some v \<and> V (base n) = Some v \<and> Q (base n) = (v, v)))
       \<and> (\<forall>M t. redacted_clone X t = s \<longrightarrow> create_spawned_tree X M t = Inl KeyError)"
  using assms
  by (auto simp add: ActionNode_init_terminal create_spawned_tree_def split: option.splits)

theorem terminal_ActionNode_reads_owner_witness:
  "get_game_outcome demo_env 1 = Some [0 \<mapsto> 1, 1 \<mapsto> 0]
   \<and> ActionNode_init demo_env 1 None (Scalar 0) = Inl KeyError
   \<and> redacted_clone demo_env 1 = 1
   \<and> create_spawned_tree demo_env demo_model 1 = Inl KeyError
   \<and> ActionNode_init demo_env 1 (Some 0) (Scalar 0) =
       Inr (ActionNode ((Node_init demo_env 1 (Some 0) (Scalar 0))\<lparr>V := Some 1, Q := (1, 1)\<rparr>) [] None [] None)"
proof -
  have t: "get_game_outcome demo_env 1 = Some [0 \<mapsto> 1, 1 \<mapsto> 0]"
    by simp
  have r: "redacted_clone demo_env 1 = 1"
    by (simp add: redacted_clone_def upt_rec)
  have i: "ActionNode_init demo_env 1 (Some 0) (Scalar 0) =
       Inr (ActionNode ((Node_init demo_env 1 (Some 0) (Scalar 0))\<lparr>V := Some 1, Q := (1, 1)\<rparr>) [] None [] None)"
    by (simp add: ActionNode_init_def Let_def)
  from terminal_ActionNode_reads_owner [OF t, of "Scalar 0"] t r i show ?thesis
    by blast
qed

section \<open>What happens to the oracle's output\<close>

lemma bad_model_sel [simp]:
  "action_eval bad_model owner s = ([- 1, 3, 5], 0, [])"
  "hidden_eval bad_model owner s = ([- 1, 3, 5], 0, [])"
  by (simp_all add: bad_model_def)

lemma imul_mask_cases:
  "imul_mask h msk = Inl e \<longleftrightarrow> e = ValueError \<and> length msk \<noteq> length h \<and> length msk \<noteq> 1"
  by (auto simp add: imul_mask_def)

lemma apply_H_mask_error:
  "apply_H_mask h msk = Inl e \<longleftrightarrow> e = ValueError \<and> length msk \<noteq> length h \<and> length msk \<noteq> 1"
proof (cases "imul_mask h msk")
  case (Inl e')
  then show ?thesis
    using imul_mask_cases [of h msk e'] by (auto simp add: apply_H_mask_def)
next
  case (Inr h1)
  then have "\<not> (length msk \<noteq> length h \<and> length msk \<noteq> 1)"
    using imul_mask_cases [of h msk ValueError] by auto
  with Inr show ?thesis
    by (auto simp add: apply_H_mask_def Let_def)
qed

text \<open>
  Claim C4, as amended. The output of the Model is not validated. \<^verbatim>\<open>ActionNode.eval_model\<close>
  never raises and stores \<^verbatim>\<open>P\<close>, \<^verbatim>\<open>V\<close> and \<^verbatim>\<open>Vc\<close> exactly as returned, whatever their
  length, sign or sum. \<^verbatim>\<open>SamplingNode.eval_model\<close> stores \<^verbatim>\<open>V\<close> and \<^verbatim>\<open>Vc\<close> as returned
  and \<^verbatim>\<open>H\<close> masked and renormalised; it raises only numpy's shape error, when \<^verbatim>\<open>H\<close>
  and the mask cannot be multiplied elementwise.
\<close>

theorem eval_model_stores_oracle_output:
  "(\<exists>n'. eval_model M (ActionNode b acts p ch sp) = Inr n'
        \<and> (p = None \<and> game_outcome b = None \<longrightarrow>
             (case action_eval M (tree_owner b) (info_set b) of
                (p', v', vc') \<Rightarrow>
                  n' = ActionNode (b\<lparr>V := Some v', Vc := Some vc', Q := (v', v')\<rparr>) acts (Some p') ch sp)))
   \<and> (case hidden_eval M (tree_owner b) (info_set b) of
         (h', v', vc') \<Rightarrow>
           (length msk = length h' \<or> length msk = 1 \<longrightarrow>
              (\<exists>h''. apply_H_mask h' msk = Inr h''
                 \<and> eval_model M (SamplingNode b None msk ch) =
                     Inr (SamplingNode (b\<lparr>V := Some v', Vc := Some vc', Q := (v', v')\<rparr>) (Some h'') msk ch)))
           \<and> (length msk \<noteq> length h' \<and> length msk \<noteq> 1 \<longrightarrow>
                eval_model M (SamplingNode b None msk ch) = Inl ValueError))"
proof -
  obtain p' v' vc' where a: "action_eval M (tree_owner b) (info_set b) = (p', v', vc')"
    by (cases "action_eval M (tree_owner b) (info_set b)")
  obtain h' w' wc' where h: "hidden_eval M (tree_owner b) (info_set b) = (h', w', wc')"
    by (cases "hidden_eval M (tree_owner b) (info_set b)")
  have action: "\<exists>n'. eval_model M (ActionNode b acts p ch sp) = Inr n'
        \<and> (p = None \<and> game_outcome b = None \<longrightarrow>
             n' = ActionNode (b\<lparr>V := Some v', Vc := Some vc', Q := (v', v')\<rparr>) acts (Some p') ch sp)"
    by (simp add: a)
  have good: "\<exists>h''. apply_H_mask h' msk = Inr h''
                 \<and> eval_model M (SamplingNode b None msk ch) =
                     Inr (SamplingNode (b\<lparr>V := Some w', Vc := Some wc', Q := (w', w')\<rparr>) (Some h'') msk ch)"
    if "length msk = length h' \<or> length msk = 1"
  proof (cases "apply_H_mask h' msk")
    case (Inl e)
    with that show ?thesis by (simp add: apply_H_mask_error)
  next
    case (Inr h'')
    then show ?thesis by (simp add: h)
  qed
  have bad: "eval_model M (SamplingNode b None msk ch) = Inl ValueError"
    if "length msk \<noteq> length h' \<and> length msk \<noteq> 1"
  proof -
    from that have "apply_H_mask h' msk = Inl ValueError"
      by (simp add: apply_H_mask_error)
    then show ?thesis by (simp add: h)
  qed
  from action good bad show ?thesis
    by (simp add: a h)
qed

theorem eval_model_stores_oracle_output_witness:
  "eval_model bad_model demo_root =
     Inr (ActionNode ((Node_init demo_env 0 (Some 0) (Scalar 0))\<lparr>V := Some 0, Vc := Some [], Q := (0, 0)\<rparr>)
            [0, 1] (Some [- 1, 3, 5]) [] None)
   \<and> eval_model bad_model (SamplingNode (Node_init demo_env 11 (Some 0) (Scalar 0)) None [True, True, False] []) =
     Inr (SamplingNode ((Node_init demo_env 11 (Some 0) (Scalar 0))\<lparr>V := Some 0, Vc := Some [], Q := (0, 0)\<rparr>)
            (Some [- 1 / 2, 3 / 2, 0]) [True, True, False] [])
   \<and> eval_model bad_model (SamplingNode (Node_init demo_env 11 (Some 0) (Scalar 0)) None [True, True] []) =
     Inl ValueError"
  using eval_model_stores_oracle_output [of bad_model "Node_init demo_env 0 (Some 0) (Scalar 0)" "[0, 1]" None "[]" None "[True, True, False]"]
    eval_model_stores_oracle_output [of bad_model "Node_init demo_env 11 (Some 0) (Scalar 0)" "[0, 1]" None "[]" None "[True, True]"]
  by (simp add: demo_root_def apply_H_mask_def imul_mask_def np_sum_short double_1e6_def Let_def)

text \<open>
  An oracle output of the wrong length, with a negative entry and with sum 7, is taken
  over by \<^verbatim>\<open>eval_model\<close> without any error.
\<close>

theorem malformed_oracle_output_accepted:
  "action_eval bad_model (Some 0) 0 = ([- 1, 3, 5], 0, [])
   \<and> length [- 1, 3, 5 :: real] \<noteq> length (get_actions demo_env 0)
   \<and> (- 1 :: real) < 0
   \<and> sum_list [- 1, 3, 5 :: real] = 7
   \<and> ActionNode_init demo_env 0 (Some 0) (Scalar 0) = Inr demo_root
   \<and> eval_model bad_model demo_root =
       Inr (ActionNode ((Node_init demo_env 0 (Some 0) (Scalar 0))\<lparr>V := Some 0, Vc := Some [], Q := (0, 0)\<rparr>)
              [0, 1] (Some [- 1, 3, 5]) [] None)"
  by (simp add: demo_root_def ActionNode_init_def Let_def)

section \<open>The children that expansion creates\<close>

lemma set_children_sel [simp]:
  "children (set_children ch self) = ch"
  "base (set_children ch self) = base self"
  "is_ActionNode (set_children ch self) = is_ActionNode self"
  by (cases self; simp)+

lemma update_base_sel [simp]:
  "base (update_base f self) = f (base self)"
  "children (update_base f self) = children self"
  "is_ActionNode (update_base f self) = is_ActionNode self"
  by (cases self; simp)+

lemma set_spawned_tree_sel [simp]:
  "base (set_spawned_tree t self) = base self"
  "children (set_spawned_tree t self) = children self"
  "is_ActionNode (set_spawned_tree t self) = is_ActionNode self"
  by (cases self; simp)+

lemma add_child_sel [simp]:
  "base (add_child k node self) = base self"
  "children (add_child k node self) = AList.update k (length (children self), node) (children self)"
  "is_ActionNode (add_child k node self) = is_ActionNode self"
  by (simp_all add: add_child_def)

lemma get_child_add_child [simp]:
  "get_child (add_child k node self) k = Inr (length (children self), node)"
  by (simp add: get_child_def update_conv')

lemma index_Vc_Inr: "index_Vc vc a = Inr q \<longleftrightarrow> (\<exists>xs. vc = Some xs \<and> a < length xs \<and> q = xs ! a)"
  by (auto simp add: index_Vc_def list_get_def split: option.splits)

lemma SamplingNode_init_Inr:
  "SamplingNode_init X s owner q = Inr node \<longleftrightarrow>
     True \<in> set (get_H_mask X s) \<and> node = SamplingNode (Node_init X s owner q) None (get_H_mask X s) []"
  by (auto simp add: SamplingNode_init_def Let_def)

lemma ActionNode_init_Inr:
  "ActionNode_init X s owner q = Inr node \<Longrightarrow>
     is_ActionNode node \<and> children node = [] \<and> P node = None \<and> spawned_tree node = None
     \<and> actions node = get_actions X s
     \<and> (base node = Node_init X s owner q \<and> get_game_outcome X s = None
        \<or> (\<exists>p outcome v. owner = Some p \<and> get_game_outcome X s = Some outcome \<and> outcome p = Some v
              \<and> base node = (Node_init X s owner q)\<lparr>V := Some v, Q := (v, v)\<rparr>))"
  by (cases "get_game_outcome X s")
     (auto simp add: ActionNode_init_nonterminal ActionNode_init_terminal split: option.splits)

text \<open>
  Claim C6, as amended. In each iteration of the loop of \<^verbatim>\<open>ActionNode.expand\<close> that
  completes, the child is a \<^verbatim>\<open>SamplingNode\<close> if and only if the acting player changes
  across \<^verbatim>\<open>apply(a)\<close> and the successor has hidden information, and an
  \<^verbatim>\<open>ActionNode\<close> otherwise. In either case its constructor is called with
  \<^verbatim>\<open>initQ = Vc[a]\<close>, and the child is stored under the key \<open>a\<close> with the next index.
  A \<^verbatim>\<open>SamplingNode\<close> and a non-terminal \<^verbatim>\<open>ActionNode\<close> leave the constructor with
  \<open>Q = (Vc[a], Vc[a])\<close>; the constructor of a terminal \<^verbatim>\<open>ActionNode\<close> goes on to fix
  \<open>Q\<close> from the game outcome for the owner of the tree. As \<^verbatim>\<open>CHEAT\<close> is set, the child
  is evaluated as soon as it is stored: a terminal child stays as it is, and the \<open>Q\<close> of any
  other child becomes the value \<open>V\<close> that the oracle returns for the child itself.
\<close>

theorem expand_action_child:
  assumes "expand_action X M a self = Inr self'"
  shows "\<exists>node node' vc.
           Vc (base self) = Some vc \<and> a < length vc
         \<and> construct_child X self a = Inr node
         \<and> (if cp (base self) \<noteq> get_current_player X (info_apply X (info_set (base self)) a)
                \<and> has_hidden_info X (info_apply X (info_set (base self)) a)
             then SamplingNode_init X (info_apply X (info_set (base self)) a)
                    (tree_owner (base self)) (Scalar (vc ! a))
             else ActionNode_init X (info_apply X (info_set (base self)) a)
                    (tree_owner (base self)) (Scalar (vc ! a))) = Inr node
         \<and> eval_model M node = Inr node'
         \<and> get_child self' a = Inr (length (children self), node')
         \<and> (is_ActionNode node \<longleftrightarrow>
              \<not> (cp (base self) \<noteq> get_current_player X (info_apply X (info_set (base self)) a)
                 \<and> has_hidden_info X (info_apply X (info_set (base self)) a)))
         \<and> (\<not> is_ActionNode node \<or> get_game_outcome X (info_apply X (info_set (base self)) a) = None \<longrightarrow>
              Q (base node) = (vc ! a, vc ! a))
         \<and> (is_ActionNode node \<and> get_game_outcome X (info_apply X (info_set (base self)) a) \<noteq> None \<longrightarrow>
              (\<exists>p outcome v. tree_owner (base self) = Some p
                 \<and> get_game_outcome X (info_apply X (info_set (base self)) a) = Some outcome
                 \<and> outcome p = Some v \<and> Q (base node) = (v, v))
              \<and> node' = node)
         \<and> (is_ActionNode node \<and> get_game_outcome X (info_apply X (info_set (base self)) a) = None \<longrightarrow>
              Q (base node') =
                (fst (snd (action_eval M (tree_owner (base self)) (info_apply X (info_set (base self)) a))),
                 fst (snd (action_eval M (tree_owner (base self)) (info_apply X (info_set (base self)) a)))))
         \<and> (\<not> is_ActionNode node \<longrightarrow>
              Q (base node') =
                (fst (snd (hidden_eval M (tree_owner (base self)) (info_apply X (info_set (base self)) a))),
                 fst (snd (hidden_eval M (tree_owner (base self)) (info_apply X (info_set (base self)) a)))))"
proof -
  let ?s = "info_apply X (info_set (base self)) a"
  let ?o = "tree_owner (base self)"
  from assms obtain node node' where
    c: "construct_child X self a = Inr node" and e: "eval_model M node = Inr node'"
    and s': "self' = add_child a node' self"
    by (auto simp add: expand_action_def CHEAT_def ebind_eq_Inr)
  from c obtain vc where vc: "Vc (base self) = Some vc" "a < length vc"
    and k: "(if cp (base self) \<noteq> get_current_player X ?s \<and> has_hidden_info X ?s
             then SamplingNode_init X ?s ?o (Scalar (vc ! a))
             else ActionNode_init X ?s ?o (Scalar (vc ! a))) = Inr node"
    by (auto simp add: construct_child_def Let_def ebind_eq_Inr index_Vc_Inr)
  show ?thesis
  proof (cases "cp (base self) \<noteq> get_current_player X ?s \<and> has_hidden_info X ?s")
    case True
    with k have node: "node = SamplingNode (Node_init X ?s ?o (Scalar (vc ! a))) None (get_H_mask X ?s) []"
      by (simp add: SamplingNode_init_Inr)
    from e have "Q (base node') = (fst (snd (hidden_eval M ?o ?s)), fst (snd (hidden_eval M ?o ?s)))"
      unfolding node by (auto simp add: ebind_eq_Inr split: prod.splits)
    with True vc c e s' k node show ?thesis
      by simp
  next
    case False
    with k have made: "ActionNode_init X ?s ?o (Scalar (vc ! a)) = Inr node"
      by simp
    show ?thesis
    proof (cases "get_game_outcome X ?s")
      case None
      with made have node: "node = ActionNode (Node_init X ?s ?o (Scalar (vc ! a))) (get_actions X ?s) None [] None"
        by (simp add: ActionNode_init_nonterminal)
      from e None have "Q (base node') = (fst (snd (action_eval M ?o ?s)), fst (snd (action_eval M ?o ?s)))"
        unfolding node by (auto split: prod.splits)
      with None False vc c e s' k node show ?thesis
        by simp
    next
      case (Some outcome)
      from ActionNode_init_Inr [OF made] Some obtain p v where
        late: "?o = Some p" "outcome p = Some v"
          "base node = (Node_init X ?s ?o (Scalar (vc ! a)))\<lparr>V := Some v, Q := (v, v)\<rparr>"
          "is_ActionNode node"
        by auto
      from late(3,4) Some e have same: "node' = node"
        by (cases node) auto
      from late Some same False vc c e s' k show ?thesis
        by simp
    qed
  qed
qed

lemma veiled_env_sel [simp]:
  "get_current_player veiled_env s = get_current_player demo_env s"
  "get_game_outcome veiled_env s = get_game_outcome demo_env s"
  "get_actions veiled_env s = get_actions demo_env s"
  "info_apply veiled_env s a = (if a = 1 then 11 else Suc a)"
  "has_hidden_info veiled_env s = has_hidden_info demo_env s"
  "get_H_mask veiled_env s = get_H_mask demo_env s"
  by (simp_all add: veiled_env_def)

lemma demo_apply_H_mask:
  "apply_H_mask [1 / 4, 1 / 4, 1 / 2] [True, True, False] = Inr [1 / 2, 1 / 2, 0]"
  by (simp add: apply_H_mask_def imul_mask_def np_sum_short double_1e6_def Let_def)

lemma veiled_expand_action:
  "expand_action veiled_env demo_model 1 demo_root_evaluated =
     Inr (add_child 1
            (SamplingNode ((Node_init veiled_env 11 (Some 0) (Scalar (3 / 4)))
                             \<lparr>V := Some (1 / 2), Vc := Some [1 / 4, 3 / 4, 0], Q := (1 / 2, 1 / 2)\<rparr>)
               (Some [1 / 2, 1 / 2, 0]) [True, True, False] [])
            demo_root_evaluated)"
  by (simp add: expand_action_def construct_child_def demo_root_evaluated_def index_Vc_def
      list_get_def SamplingNode_init_def demo_apply_H_mask Let_def CHEAT_def)

theorem expand_action_child_witness:
  "expand_action demo_env demo_model 0 demo_root_evaluated =
     Inr (add_child 0 (ActionNode ((Node_init demo_env 1 (Some 0) (Scalar (1 / 4)))\<lparr>V := Some 1, Q := (1, 1)\<rparr>) [] None [] None)
            demo_root_evaluated)
   \<and> (\<exists>node. construct_child demo_env demo_root_evaluated 0 = Inr node \<and> is_ActionNode node)
   \<and> expand_action veiled_env demo_model 1 demo_root_evaluated =
     Inr (add_child 1
            (SamplingNode ((Node_init veiled_env 11 (Some 0) (Scalar (3 / 4)))
                             \<lparr>V := Some (1 / 2), Vc := Some [1 / 4, 3 / 4, 0], Q := (1 / 2, 1 / 2)\<rparr>)
               (Some [1 / 2, 1 / 2, 0]) [True, True, False] [])
            demo_root_evaluated)
   \<and> (\<exists>node. construct_child veiled_env demo_root_evaluated 1 = Inr node \<and> \<not> is_ActionNode node
          \<and> Q (base node) = (3 / 4, 3 / 4))"
proof -
  have run: "expand_action demo_env demo_model 0 demo_root_evaluated =
     Inr (add_child 0 (ActionNode ((Node_init demo_env 1 (Some 0) (Scalar (1 / 4)))\<lparr>V := Some 1, Q := (1, 1)\<rparr>) [] None [] None)
            demo_root_evaluated)"
    by (simp add: expand_action_def construct_child_def demo_root_evaluated_def index_Vc_def
        list_get_def ActionNode_init_def Let_def CHEAT_def)
  have same_player: "cp (base demo_root_evaluated) =
      get_current_player demo_env (info_apply demo_env (info_set (base demo_root_evaluated)) 0)"
    by (simp add: demo_root_evaluated_def)
  from expand_action_child [OF run] obtain node where
    "construct_child demo_env demo_root_evaluated 0 = Inr node"
    "is_ActionNode node \<longleftrightarrow>
       \<not> (cp (base demo_root_evaluated) \<noteq>
            get_current_player demo_env (info_apply demo_env (info_set (base demo_root_evaluated)) 0)
          \<and> has_hidden_info demo_env (info_apply demo_env (info_set (base demo_root_evaluated)) 0))"
    by blast
  with same_player have first: "\<exists>node. construct_child demo_env demo_root_evaluated 0 = Inr node \<and> is_ActionNode node"
    by blast
  have other_player: "cp (base demo_root_evaluated) \<noteq>
      get_current_player veiled_env (info_apply veiled_env (info_set (base demo_root_evaluated)) 1)"
    and hidden: "has_hidden_info veiled_env (info_apply veiled_env (info_set (base demo_root_evaluated)) 1)"
    and vc: "Vc (base demo_root_evaluated) = Some [1 / 4, 3 / 4]"
    by (simp_all add: demo_root_evaluated_def)
  from expand_action_child [OF veiled_expand_action] obtain made vc' where
    "Vc (base demo_root_evaluated) = Some vc'"
    "construct_child veiled_env demo_root_evaluated 1 = Inr made"
    "is_ActionNode made \<longleftrightarrow>
       \<not> (cp (base demo_root_evaluated) \<noteq>
            get_current_player veiled_env (info_apply veiled_env (info_set (base demo_root_evaluated)) 1)
          \<and> has_hidden_info veiled_env (info_apply veiled_env (info_set (base demo_root_evaluated)) 1))"
    "\<not> is_ActionNode made
       \<or> get_game_outcome veiled_env (info_apply veiled_env (info_set (base demo_root_evaluated)) 1) = None \<longrightarrow>
     Q (base made) = (vc' ! 1, vc' ! 1)"
    by (elim exE conjE) (rule that, assumption+)
  with other_player hidden vc
  have second: "\<exists>node. construct_child veiled_env demo_root_evaluated 1 = Inr node \<and> \<not> is_ActionNode node
      \<and> Q (base node) = (3 / 4, 3 / 4)"
    by auto
  from run first veiled_expand_action second show ?thesis
    by blast
qed

text \<open>
  For the first action of the small game the successor is terminal: the constructor is
  called with \<open>Vc[0] = 1/4\<close> and fixes \<open>Q = (1, 1)\<close> from the outcome. For the second
  action of the veiled game the child is a \<^verbatim>\<open>SamplingNode\<close>: the constructor is called
  with \<open>Vc[1] = 3/4\<close>, and the child that the loop stores has \<open>Q = (1/2, 1/2)\<close>, the
  oracle's value for the child.
\<close>

theorem terminal_child_Q_from_outcome:
  "eval_model demo_model demo_root = Inr demo_root_evaluated
   \<and> index_Vc (Vc (base demo_root_evaluated)) 0 = Inr (1 / 4)
   \<and> get_game_outcome demo_env (info_apply demo_env (info_set (base demo_root_evaluated)) 0)
       = Some [0 \<mapsto> 1, 1 \<mapsto> 0]
   \<and> construct_child demo_env demo_root_evaluated 0 =
       Inr (ActionNode ((Node_init demo_env 1 (Some 0) (Scalar (1 / 4)))\<lparr>V := Some 1, Q := (1, 1)\<rparr>) [] None [] None)
   \<and> Q ((Node_init demo_env 1 (Some 0) (Scalar (1 / 4)))\<lparr>V := Some 1, Q := (1, 1)\<rparr>) \<noteq> (1 / 4, 1 / 4)
   \<and> index_Vc (Vc (base demo_root_evaluated)) 1 = Inr (3 / 4)
   \<and> (\<exists>child. get_child (add_child 1
            (SamplingNode ((Node_init veiled_env 11 (Some 0) (Scalar (3 / 4)))
                             \<lparr>V := Some (1 / 2), Vc := Some [1 / 4, 3 / 4, 0], Q := (1 / 2, 1 / 2)\<rparr>)
               (Some [1 / 2, 1 / 2, 0]) [True, True, False] [])
            demo_root_evaluated) 1 = Inr (0, child)
          \<and> Q (base child) = (1 / 2, 1 / 2) \<and> Q (base child) \<noteq> (3 / 4, 3 / 4))
   \<and> expand_action veiled_env demo_model 1 demo_root_evaluated =
     Inr (add_child 1
            (SamplingNode ((Node_init veiled_env 11 (Some 0) (Scalar (3 / 4)))
                             \<lparr>V := Some (1 / 2), Vc := Some [1 / 4, 3 / 4, 0], Q := (1 / 2, 1 / 2)\<rparr>)
               (Some [1 / 2, 1 / 2, 0]) [True, True, False] [])
            demo_root_evaluated)"
proof -
  have "eval_model demo_model demo_root = Inr demo_root_evaluated
   \<and> index_Vc (Vc (base demo_root_evaluated)) 0 = Inr (1 / 4)
   \<and> get_game_outcome demo_env (info_apply demo_env (info_set (base demo_root_evaluated)) 0)
       = Some [0 \<mapsto> 1, 1 \<mapsto> 0]
   \<and> construct_child demo_env demo_root_evaluated 0 =
       Inr (ActionNode ((Node_init demo_env 1 (Some 0) (Scalar (1 / 4)))\<lparr>V := Some 1, Q := (1, 1)\<rparr>) [] None [] None)
   \<and> Q ((Node_init demo_env 1 (Some 0) (Scalar (1 / 4)))\<lparr>V := Some 1, Q := (1, 1)\<rparr>) \<noteq> (1 / 4, 1 / 4)
   \<and> index_Vc (Vc (base demo_root_evaluated)) 1 = Inr (3 / 4)"
    by (simp add: construct_child_def demo_root_def demo_root_evaluated_def index_Vc_def
        list_get_def ActionNode_init_def Let_def)
  moreover have "\<exists>child. get_child (add_child 1
            (SamplingNode ((Node_init veiled_env 11 (Some 0) (Scalar (3 / 4)))
                             \<lparr>V := Some (1 / 2), Vc := Some [1 / 4, 3 / 4, 0], Q := (1 / 2, 1 / 2)\<rparr>)
               (Some [1 / 2, 1 / 2, 0]) [True, True, False] [])
            demo_root_evaluated) 1 = Inr (0, child)
          \<and> Q (base child) = (1 / 2, 1 / 2) \<and> Q (base child) \<noteq> (3 / 4, 3 / 4)"
    by (simp add: demo_root_evaluated_def)
  ultimately show ?thesis
    using veiled_expand_action by blast
qed

section \<open>The candidates of computePUCT\<close>

lemma argmax_Max:
  "xs \<noteq> [] \<Longrightarrow> argmax xs < length xs \<and> xs ! argmax xs = Max (set xs)"
proof (induction xs)
  case Nil
  then show ?case by simp
next
  case (Cons x xs)
  show ?case
  proof (cases "\<forall>y \<in> set xs. y \<le> x")
    case True
    then have "Max (set (x # xs)) = x"
      by (intro Max_eqI) auto
    with True show ?thesis by simp
  next
    case False
    then obtain y where y: "y \<in> set xs" "x < y" by auto
    then have ne: "xs \<noteq> []" by auto
    from y have "x \<le> Max (set xs)"
      by (meson List.finite_set Max_ge less_le_not_le order_trans)
    with ne have "Max (set (x # xs)) = Max (set xs)"
      by (simp add: max_def)
    moreover from False have "argmax (x # xs) = Suc (argmax xs)"
      by simp
    ultimately show ?thesis
      using Cons.IH [OF ne] by simp
  qed
qed

lemma take_Suc_update: "k < length xs \<Longrightarrow> take (Suc k) (xs[k := x]) = take k xs @ [x]"
  by (simp add: take_Suc_conv_app_nth)

lemma fill_arrays_in_order:
  assumes "map (\<lambda>c. fst (snd c)) ch = [k..<k + length ch]" and "k + length ch \<le> length aa"
    and "length qs = length aa" and "length ns = length aa"
  shows "fill_arrays ch (aa, qs, ns) =
     Inr (take k aa @ map fst ch @ drop (k + length ch) aa,
          take k qs @ map (\<lambda>c. Q (base (snd (snd c)))) ch @ drop (k + length ch) qs,
          take k ns @ map (\<lambda>c. float64 (real (N (base (snd (snd c)))))) ch @ drop (k + length ch) ns)"
  using assms
proof (induction ch arbitrary: k aa qs ns)
  case Nil
  then show ?case by simp
next
  case (Cons c rest)
  obtain a i child where c: "c = (a, i, child)" by (cases c)
  have "[k..<k + length (c # rest)] = k # [Suc k..<Suc k + length rest]"
    by (subst upt_conv_Cons) simp_all
  with Cons.prems(1) have "i # map (\<lambda>c. fst (snd c)) rest = k # [Suc k..<Suc k + length rest]"
    by (simp only: c list.map fst_conv snd_conv)
  then have i: "i = k" and rest: "map (\<lambda>c. fst (snd c)) rest = [Suc k..<Suc k + length rest]"
    by blast+
  from Cons.prems have k: "k < length aa" "k < length qs" "k < length ns"
    by simp_all
  have "fill_arrays (c # rest) (aa, qs, ns) =
      fill_arrays rest (aa[k := a], qs[k := Q (base child)], ns[k := float64 (real (N (base child)))])"
    using k by (simp add: c i)
  also have "\<dots> = Inr (take (Suc k) (aa[k := a]) @ map fst rest @ drop (Suc k + length rest) (aa[k := a]),
          take (Suc k) (qs[k := Q (base child)]) @ map (\<lambda>c. Q (base (snd (snd c)))) rest
            @ drop (Suc k + length rest) (qs[k := Q (base child)]),
          take (Suc k) (ns[k := float64 (real (N (base child)))]) @ map (\<lambda>c. float64 (real (N (base (snd (snd c)))))) rest
            @ drop (Suc k + length rest) (ns[k := float64 (real (N (base child)))]))"
    using Cons.prems by (intro Cons.IH [OF rest]) simp_all
  also have "\<dots> = Inr (take k aa @ map fst (c # rest) @ drop (k + length (c # rest)) aa,
          take k qs @ map (\<lambda>c. Q (base (snd (snd c)))) (c # rest) @ drop (k + length (c # rest)) qs,
          take k ns @ map (\<lambda>c. float64 (real (N (base (snd (snd c)))))) (c # rest) @ drop (k + length (c # rest)) ns)"
    using k by (simp add: take_Suc_update c)
  finally show ?case .
qed

lemma fill_arrays_fresh:
  assumes "map (\<lambda>c. fst (snd c)) ch = [0..<length ch]"
  shows "fill_arrays ch (replicate (length ch) 0, replicate (length ch) (0, 0), replicate (length ch) 0) =
     Inr (map fst ch, map (\<lambda>c. Q (base (snd (snd c)))) ch, map (\<lambda>c. float64 (real (N (base (snd (snd c)))))) ch)"
  using fill_arrays_in_order [of ch 0 "replicate (length ch) 0" "replicate (length ch) (0, 0)"
      "replicate (length ch) 0"] assms
  by simp

lemma filter_upt_single:
  assumes "k < n" and "pr k" and "\<forall>j < n. j \<noteq> k \<longrightarrow> \<not> pr j"
  shows "filter pr [0..<n] = [k]"
proof -
  have "[0..<n] = [0..<k] @ [k] @ [Suc k..<n]"
    using assms(1) by (metis append_Cons append_Nil le0 le_add_diff_inverse less_imp_le_nat upt_add_eq_append upt_conv_Cons)
  moreover have "filter pr [0..<k] = []" "filter pr [Suc k..<n] = []"
    using assms by (auto simp add: filter_empty_conv)
  ultimately show ?thesis
    using assms(2) by simp
qed


lemma broadcast2_same_length:
  "length xs = length ys \<Longrightarrow> broadcast2 f xs ys = Inr (map2 f xs ys)"
  by (simp add: broadcast2_def)

lemma computePUCT_in_order:
  fixes ch :: "(nat \<times> nat \<times> 'i node) list" and pr :: "real list"
  defines "ns \<equiv> map (\<lambda>c. float64 (real (N (base (snd (snd c)))))) ch"
  defines "bonus \<equiv> \<lambda>k. float64 (float64 (float64 (c_PUCT * pr ! k) * float64 (sqrt (np_sum ns)))
                                    / float64 (ns ! k + 1))"
  defines "lower \<equiv> \<lambda>k. float64 (fst (Q (base (snd (snd (ch ! k))))) + bonus k)"
  defines "upper \<equiv> \<lambda>k. float64 (snd (Q (base (snd (snd (ch ! k))))) + bonus k)"
  assumes ne: "ch \<noteq> []" and len: "length pr = length ch"
    and idx: "map (\<lambda>c. fst (snd c)) ch = [0..<length ch]"
  shows "computePUCT (ActionNode b acts (Some pr) ch sp) =
           Inr (map (\<lambda>c. Q (base (snd (snd c)))) ch,
                filter (\<lambda>k. float64 (Max (lower ` {..<length ch}) - double_1e8) \<le> upper k)
                  [0..<length ch])"
proof -
  define n where "n = length ch"
  define qs where "qs = map (\<lambda>c. Q (base (snd (snd c)))) ch"
  define bl where "bl = map2 (\<lambda>x m. float64 (float64 (float64 (c_PUCT * x) * float64 (sqrt (np_sum ns)))
                                             / float64 (m + 1))) pr ns"
  define sc where "sc = map2 (\<lambda>(l, u) e. (float64 (l + e), float64 (u + e))) qs bl"
  have len_bl: "length bl = n" and len_qs: "length qs = n" and len_ns: "length ns = n"
    using len by (simp_all add: bl_def qs_def ns_def n_def)
  have len_sc: "length sc = n"
    by (simp add: sc_def len_bl len_qs)
  have bl_nth: "bl ! k = bonus k" if "k < n" for k
    using that len len_ns by (simp add: bl_def bonus_def n_def)
  have sc_nth: "sc ! k = (lower k, upper k)" if "k < n" for k
    using that bl_nth [OF that] len_bl len_qs
    by (simp add: sc_def qs_def lower_def upper_def n_def split_beta)
  have sc_ne: "sc \<noteq> []"
    using ne len_sc by (auto simp add: n_def)
  have fsts: "map fst sc = map lower [0..<n]"
    by (rule nth_equalityI) (simp_all add: len_sc sc_nth)
  have "map fst sc \<noteq> []"
    using sc_ne by simp
  from argmax_Max [OF this] have am: "argmax (map fst sc) < n"
    and "map fst sc ! argmax (map fst sc) = Max (set (map fst sc))"
    by (simp_all add: len_sc)
  then have best: "fst (sc ! argmax (map fst sc)) = Max (lower ` {..<n})"
    by (simp add: fsts len_sc atLeast0LessThan sc_nth del: map_map)
  have fa: "fill_arrays ch (replicate (length ch) 0, replicate (length ch) (0, 0), replicate (length ch) 0) =
      Inr (map fst ch, qs, ns)"
    by (simp add: fill_arrays_fresh [OF idx] qs_def ns_def)
  have b1: "broadcast2 (\<lambda>x m. float64 (float64 (float64 (c_PUCT * x) * float64 (sqrt (np_sum ns)))
                                      / float64 (m + 1))) pr ns = Inr bl"
    using len len_ns by (simp add: broadcast2_same_length bl_def n_def)
  have b2: "broadcast2 (\<lambda>(l, u) e. (float64 (l + e), float64 (u + e))) qs bl = Inr sc"
    using len_bl len_qs by (simp add: broadcast2_same_length sc_def)
  have run: "computePUCT (ActionNode b acts (Some pr) ch sp) =
      Inr (qs, filter (\<lambda>i. float64 (fst (sc ! argmax (map fst sc)) - double_1e8) \<le> snd (sc ! i))
                 [0..<length sc])"
    using sc_ne by (simp add: fa b1 b2 Let_def)
  have "filter (\<lambda>i. float64 (fst (sc ! argmax (map fst sc)) - double_1e8) \<le> snd (sc ! i)) [0..<length sc] =
        filter (\<lambda>k. float64 (Max (lower ` {..<n}) - double_1e8) \<le> upper k) [0..<n]"
    unfolding len_sc best by (rule filter_cong) (simp_all add: sc_nth)
  with run show ?thesis
    by (simp add: qs_def n_def)
qed

lemma double_1e8_pos: "0 < double_1e8"
  by (simp add: double_1e8_def)

text \<open>
  Claim C2, as amended. For a node with at least one child, whose edges carry the indices
  \<open>0, 1, \<dots>\<close> in insertion order and whose prior has one entry per child,
  \<^verbatim>\<open>computePUCT\<close> returns the children's \<open>Q\<close> and, as candidates, every edge index
  whose score-interval upper bound is at least the threshold: the double nearest to
  \<open>bestLower - 1e-8\<close>, which is what the subtraction in doubles returns. The score
  interval of the child at index \<open>k\<close> is its \<open>Q\<close> with the bonus
  \<open>c_PUCT * P[k] * sqrt (sum of all children's N) / (N\<^sub>k + 1)\<close> added to both bounds, every
  operation rounded to a double, and \<open>bestLower\<close> is the largest lower bound. Every child
  whose upper bound is at least \<open>bestLower - 1e-8\<close> is a candidate. The candidate set is
  the single index \<open>k\<close> whenever every score interval has its lower bound below its upper
  bound and every other upper bound is below the threshold for the lower bound of \<open>k\<close>;
  that is so whenever the lower bound of \<open>k\<close> exceeds every other upper bound by more
  than \<open>1e-8\<close> and the rounding of the subtraction: \<open>2\<^sup>-\<^sup>5\<^sup>3\<close> of the difference, and
  \<open>2\<^sup>-\<^sup>1\<^sup>0\<^sup>7\<^sup>5\<close>.
\<close>

theorem computePUCT_candidates:
  fixes ch :: "(nat \<times> nat \<times> 'i node) list" and pr :: "real list"
  defines "ns \<equiv> map (\<lambda>c. float64 (real (N (base (snd (snd c)))))) ch"
  defines "bonus \<equiv> \<lambda>k. float64 (float64 (float64 (c_PUCT * pr ! k) * float64 (sqrt (np_sum ns)))
                                    / float64 (ns ! k + 1))"
  defines "lower \<equiv> \<lambda>k. float64 (fst (Q (base (snd (snd (ch ! k))))) + bonus k)"
  defines "upper \<equiv> \<lambda>k. float64 (snd (Q (base (snd (snd (ch ! k))))) + bonus k)"
  assumes ne: "ch \<noteq> []" and len: "length pr = length ch"
    and idx: "map (\<lambda>c. fst (snd c)) ch = [0..<length ch]"
  shows "computePUCT (ActionNode b acts (Some pr) ch sp) =
           Inr (map (\<lambda>c. Q (base (snd (snd c)))) ch,
                filter (\<lambda>k. float64 (Max (lower ` {..<length ch}) - double_1e8) \<le> upper k)
                  [0..<length ch])
       \<and> (\<forall>k < length ch. Max (lower ` {..<length ch}) - double_1e8 \<le> upper k \<longrightarrow>
             float64 (Max (lower ` {..<length ch}) - double_1e8) \<le> upper k)
       \<and> (\<forall>k < length ch.
             (\<forall>j < length ch. lower j \<le> upper j)
             \<and> (\<forall>j < length ch. j \<noteq> k \<longrightarrow> upper j < float64 (lower k - double_1e8)) \<longrightarrow>
             computePUCT (ActionNode b acts (Some pr) ch sp) =
               Inr (map (\<lambda>c. Q (base (snd (snd c)))) ch, [k]))
       \<and> (\<forall>k < length ch.
             (\<forall>j < length ch. lower j \<le> upper j)
             \<and> (\<forall>j < length ch. j \<noteq> k \<longrightarrow>
                   upper j + (\<bar>lower k - double_1e8\<bar> / 2 ^ 53 + 1 / 2 ^ 1075) < lower k - double_1e8) \<longrightarrow>
             computePUCT (ActionNode b acts (Some pr) ch sp) =
               Inr (map (\<lambda>c. Q (base (snd (snd c)))) ch, [k]))"
proof -
  let ?best = "Max (lower ` {..<length ch})"
  have run: "computePUCT (ActionNode b acts (Some pr) ch sp) =
           Inr (map (\<lambda>c. Q (base (snd (snd c)))) ch,
                filter (\<lambda>k. float64 (?best - double_1e8) \<le> upper k) [0..<length ch])"
    unfolding lower_def upper_def bonus_def ns_def
    by (rule computePUCT_in_order [OF ne len idx])
  have near: "float64 (?best - double_1e8) \<le> upper k" if "?best - double_1e8 \<le> upper k" for k
    using that unfolding upper_def by (rule float64_le_representable)
  have pure: "filter (\<lambda>k. float64 (?best - double_1e8) \<le> upper k) [0..<length ch] = [k]"
    if k: "k < length ch" and ordered: "\<forall>j < length ch. lower j \<le> upper j"
      and apart: "\<forall>j < length ch. j \<noteq> k \<longrightarrow> upper j < float64 (lower k - double_1e8)" for k
  proof -
    have down: "float64 (lower k - double_1e8) \<le> lower k"
      unfolding lower_def using double_1e8_pos by (intro float64_le_representable) simp
    have below: "lower j \<le> lower k" if "j < length ch" for j
    proof (cases "j = k")
      case True
      then show ?thesis by simp
    next
      case False
      with that ordered apart have "lower j \<le> upper j" "upper j < float64 (lower k - double_1e8)"
        by simp_all
      with down show ?thesis by simp
    qed
    have best: "?best = lower k"
      by (rule Max_eqI) (use k below in auto)
    show ?thesis
    proof (rule filter_upt_single [OF k])
      from ordered k have "lower k \<le> upper k" by simp
      with down show "float64 (?best - double_1e8) \<le> upper k"
        unfolding best by simp
      from apart show "\<forall>j < length ch. j \<noteq> k \<longrightarrow> \<not> float64 (?best - double_1e8) \<le> upper j"
        unfolding best by (simp add: not_le)
    qed
  qed
  have margin: "upper j < float64 (lower k - double_1e8)"
    if "upper j + (\<bar>lower k - double_1e8\<bar> / 2 ^ 53 + 1 / 2 ^ 1075) < lower k - double_1e8" for j k
    using that float64_error [of "lower k - double_1e8"] by linarith
  from run near pure margin show ?thesis
    by (simp only:) blast
qed

lemma demo_root_expanded_PUCT:
  "computePUCT demo_root_expanded = Inr ([(1, 1), (0, 0)], [0])"
  by (simp add: demo_root_expanded_def demo_leaf_def broadcast2_def c_PUCT_def Let_def
      np_sum_short float64_threshold_one)

text \<open>
  Two children that were never visited, so that the bonus is zero, with \<open>Q = (1, 1)\<close>
  and \<open>Q = (v, v)\<close>. For \<open>v = 1 - 2\<^sup>-\<^sup>2\<^sup>7\<close> the lower bound of the first strictly exceeds
  the upper bound of the second, and both are candidates. So they are for the double
  \<open>v = 1 - 90071993 \<sqdot> 2\<^sup>-\<^sup>5\<^sup>3\<close>, which is below \<open>1 - 1e-8\<close>: it is the threshold, the
  double nearest to \<open>1 - 1e-8\<close>.
\<close>

theorem near_tie_has_two_candidates:
  "float64 (float64 (float64 (c_PUCT * (1 / 2)) * float64 (sqrt (np_sum [float64 0, float64 0])))
            / float64 (float64 0 + 1)) = 0
   \<and> snd (Q (base (tie_child (1 - 1 / 2 ^ 27)))) < fst (Q (base (tie_child 1)))
   \<and> computePUCT (tie_node (1 - 1 / 2 ^ 27)) = Inr ([(1, 1), (1 - 1 / 2 ^ 27, 1 - 1 / 2 ^ 27)], [0, 1])
   \<and> snd (Q (base (tie_child (9007199164668999 / 2 ^ 53)))) < fst (Q (base (tie_child 1))) - double_1e8
   \<and> computePUCT (tie_node (9007199164668999 / 2 ^ 53)) =
       Inr ([(1, 1), (9007199164668999 / 2 ^ 53, 9007199164668999 / 2 ^ 53)], [0, 1])"
proof -
  have same: "float64 (134217727 / 134217728) = 134217727 / 134217728"
    "float64 (9007199164668999 / 9007199254740992) = 9007199164668999 / 9007199254740992"
    using float64_dyadic [of 134217727 27] float64_dyadic [of 9007199164668999 53] by simp_all
  have gap: "snd (Q (base (tie_child (9007199164668999 / 2 ^ 53)))) < fst (Q (base (tie_child 1))) - double_1e8"
    by (simp add: tie_child_def double_1e8_def)
  have runs: "float64 (float64 (float64 (c_PUCT * (1 / 2)) * float64 (sqrt (np_sum [float64 0, float64 0])))
            / float64 (float64 0 + 1)) = 0
   \<and> snd (Q (base (tie_child (1 - 1 / 2 ^ 27)))) < fst (Q (base (tie_child 1)))
   \<and> computePUCT (tie_node (1 - 1 / 2 ^ 27)) = Inr ([(1, 1), (1 - 1 / 2 ^ 27, 1 - 1 / 2 ^ 27)], [0, 1])
   \<and> computePUCT (tie_node (9007199164668999 / 2 ^ 53)) =
       Inr ([(1, 1), (9007199164668999 / 2 ^ 53, 9007199164668999 / 2 ^ 53)], [0, 1])"
    by (simp add: tie_node_def tie_child_def broadcast2_def c_PUCT_def Let_def np_sum_short
        float64_threshold_one same)
  from gap runs show ?thesis
    by blast
qed

theorem computePUCT_candidates_witness:
  "[(0, 0, demo_leaf 1 (1 / 4) 1), (1, 1, demo_leaf 2 (3 / 4) 0)] \<noteq> []
   \<and> length [1 / 2, 1 / 2 :: real] = length [(0 :: nat, 0 :: nat, demo_leaf 1 (1 / 4) 1), (1, 1, demo_leaf 2 (3 / 4) 0)]
   \<and> map (\<lambda>c. fst (snd c)) [(0 :: nat, 0 :: nat, demo_leaf 1 (1 / 4) 1), (1, 1, demo_leaf 2 (3 / 4) 0)] = [0..<2]
   \<and> computePUCT demo_root_expanded = Inr ([(1, 1), (0, 0)], [0])"
proof -
  let ?ch = "[(0 :: nat, 0 :: nat, demo_leaf 1 (1 / 4) 1), (1, 1, demo_leaf 2 (3 / 4) 0)]"
  let ?b = "(Node_init demo_env 0 (Some 0) (Scalar 0))
              \<lparr>V := Some (1 / 2), Vc := Some [1 / 4, 3 / 4], Q := (1 / 2, 1 / 2), N := 1, expanded := True\<rparr>"
  have ne: "?ch \<noteq> []" by simp
  have len: "length [1 / 2, 1 / 2 :: real] = length ?ch" by simp
  have idx: "map (\<lambda>c. fst (snd c)) ?ch = [0..<length ?ch]" by (simp add: upt_rec)
  have two: "{..<Suc (Suc 0)} = {0, Suc 0}" by auto
  from computePUCT_candidates [OF ne len idx, of ?b "[0, 1]" None]
  have "computePUCT (ActionNode ?b [0, 1] (Some [1 / 2, 1 / 2]) ?ch None) = Inr ([(1, 1), (0, 0)], [0])"
    by (simp add: demo_leaf_def two All_less_Suc c_PUCT_def np_sum_short float64_threshold_one)
  with ne len idx show ?thesis
    by (simp add: demo_root_expanded_def numeral_2_eq_2)
qed

section \<open>How a visit that returns has run\<close>

lemma ebind_InrE:
  assumes "ebind m f = Inr y"
  obtains x where "m = Inr x" and "f x = Inr y"
  using assms by (cases m) simp_all

lemma eval_model_preserves:
  assumes "eval_model M node = Inr node'"
  shows "children node' = children node"
    and "is_ActionNode node' = is_ActionNode node"
    and "N (base node') = N (base node)"
    and "info_set (base node') = info_set (base node)"
    and "cp (base node') = cp (base node)"
    and "game_outcome (base node') = game_outcome (base node)"
    and "tree_owner (base node') = tree_owner (base node)"
    and "residual_Q_to_V (base node') = residual_Q_to_V (base node)"
    and "expanded (base node') = expanded (base node)"
    and "is_ActionNode node \<Longrightarrow> actions node' = actions node"
    and "is_ActionNode node \<Longrightarrow> spawned_tree node' = spawned_tree node"
    and "\<not> is_ActionNode node \<Longrightarrow> H_mask node' = H_mask node"
  using assms
  by (cases node; auto simp add: ebind_eq_Inr split: if_splits prod.splits)+

lemma update_Q_Inr:
  assumes "update_Q self u child = Inr self'"
  obtains v where "V (base self) = Some v"
    and "self' = update_base (\<lambda>b. b\<lparr>Q := add_residual u (residual_Q_to_V (base child)),
            residual_Q_to_V := update_residual (residual_Q_to_V b) (N b)
               (add_residual u (residual_Q_to_V (base child))) v\<rparr>) self"
proof -
  from assms obtain v where v: "V (base self) = Some v"
    by (cases "V (base self)") (simp_all add: update_Q_def Let_def)
  with assms have "self' = update_base (\<lambda>b. b\<lparr>Q := add_residual u (residual_Q_to_V (base child)),
            residual_Q_to_V := update_residual (residual_Q_to_V b) (N b)
               (add_residual u (residual_Q_to_V (base child))) v\<rparr>) self"
    by (cases self) (auto simp add: update_Q_def Let_def)
  with v show ?thesis by (rule that)
qed

lemma visit_child_Inr:
  assumes "visit_child rec self key g = Inr (self', child', g')"
  obtains i child r where "map_of (children self) key = Some (i, child)"
    and "rec child g = Inr (child', r, g')"
    and "self' = set_children (AList.update key (i, child') (children self)) self"
proof -
  from assms obtain e where e: "get_child self key = Inr e"
    and rest: "(case e of (i, child) \<Rightarrow> ebind (rec child g) (\<lambda>(child, r, g).
       Inr (set_children (AList.update key (i, child) (children self)) self, child, g))) = Inr (self', child', g')"
    unfolding visit_child_def by (rule ebind_InrE)
  obtain i child where ic: "e = (i, child)" by (cases e)
  from e ic have look: "map_of (children self) key = Some (i, child)"
    by (simp add: get_child_def split: option.splits)
  from rest ic obtain x where x: "rec child g = Inr x"
    and fin: "(case x of (child, r, g) \<Rightarrow>
       Inr (set_children (AList.update key (i, child) (children self)) self, child, g)) = Inr (self', child', g')"
    by (auto elim: ebind_InrE)
  obtain c2 r g2 where "x = (c2, r, g2)" by (cases x)
  with x fin look show ?thesis
    by (intro that [of i child r]) auto
qed


lemma tail_inversion:
  assumes "ebind (visit_child rec mid key g1) (\<lambda>(self, child, g).
           ebind (calc_union_interval X self (pf self)) (\<lambda>union_interval.
           ebind (update_Q self union_interval child) (\<lambda>self. Inr (F self g)))) = Inr res"
    and pf: "\<And>ch. pf (set_children ch mid) = probs"
  obtains self' g' where "res = F self' g'" and "visit_tail rec X mid key probs g1 = Inr (self', g')"
proof -
  from assms(1) obtain x where x: "visit_child rec mid key g1 = Inr x"
    and r1: "(case x of (self, child, g) \<Rightarrow>
           ebind (calc_union_interval X self (pf self)) (\<lambda>union_interval.
           ebind (update_Q self union_interval child) (\<lambda>self. Inr (F self g)))) = Inr res"
    by (rule ebind_InrE)
  obtain s2 c2 g2 where x2: "x = (s2, c2, g2)" by (cases x)
  from x [unfolded x2] obtain i child rr where
    "map_of (children mid) key = Some (i, child)" and "rec child g1 = Inr (c2, rr, g2)"
    and "s2 = set_children (AList.update key (i, c2) (children mid)) mid"
    by (rule visit_child_Inr)
  then have "pf s2 = probs"
    by (simp only: pf)
  with r1 x2 obtain u where u: "calc_union_interval X s2 probs = Inr u"
    and r2: "ebind (update_Q s2 u c2) (\<lambda>self. Inr (F self g2)) = Inr res"
    by (auto elim: ebind_InrE)
  from r2 obtain s3 where s3: "update_Q s2 u c2 = Inr s3" and res: "res = F s3 g2"
    by (auto elim: ebind_InrE)
  have "visit_tail rec X mid key probs g1 = Inr (s3, g2)"
    by (simp add: visit_tail_def x x2 u s3)
  with res show ?thesis by (rule that)
qed

lemma set_children_H_P [simp]:
  "H (set_children ch self) = H self"
  "P (set_children ch self) = P self"
  "actions (set_children ch self) = actions self"
  "spawned_tree (set_children ch self) = spawned_tree self"
  "H_mask (set_children ch self) = H_mask self"
  by (cases self, simp_all add: H_def P_def actions_def spawned_tree_def H_mask_def)+

lemma visit_tail_Inr:
  assumes "visit_tail rec X mid key probs g1 = Inr (self', g')"
  obtains i child child' rr u v where
    "map_of (children mid) key = Some (i, child)"
    and "rec child g1 = Inr (child', rr, g')"
    and "calc_union_interval X (set_children (AList.update key (i, child') (children mid)) mid) probs = Inr u"
    and "V (base mid) = Some v"
    and "self' = update_base (\<lambda>b. b\<lparr>Q := add_residual u (residual_Q_to_V (base child')),
            residual_Q_to_V := update_residual (residual_Q_to_V b) (N b)
               (add_residual u (residual_Q_to_V (base child'))) v\<rparr>)
          (set_children (AList.update key (i, child') (children mid)) mid)"
proof -
  from assms obtain x where x: "visit_child rec mid key g1 = Inr x"
    and r1: "(case x of (self, child, g) \<Rightarrow>
           ebind (calc_union_interval X self probs) (\<lambda>union_interval.
           ebind (update_Q self union_interval child) (\<lambda>self. Inr (self, g)))) = Inr (self', g')"
    unfolding visit_tail_def by (rule ebind_InrE)
  obtain s2 c2 g2 where x2: "x = (s2, c2, g2)" by (cases x)
  from r1 x2 obtain u where u: "calc_union_interval X s2 probs = Inr u"
    and r2: "ebind (update_Q s2 u c2) (\<lambda>self. Inr (self, g2)) = Inr (self', g')"
    by (auto elim: ebind_InrE)
  from r2 have s3: "update_Q s2 u c2 = Inr self'" and g2: "g2 = g'"
    by (auto elim: ebind_InrE)
  from x x2 g2 obtain i child rr where look: "map_of (children mid) key = Some (i, child)"
    and rec: "rec child g1 = Inr (c2, rr, g')"
    and s2: "s2 = set_children (AList.update key (i, c2) (children mid)) mid"
    by (auto elim: visit_child_Inr)
  from s3 obtain v where v: "V (base s2) = Some v"
    and fin: "self' = update_base (\<lambda>b. b\<lparr>Q := add_residual u (residual_Q_to_V (base c2)),
            residual_Q_to_V := update_residual (residual_Q_to_V b) (N b)
               (add_residual u (residual_Q_to_V (base c2))) v\<rparr>) s2"
    by (rule update_Q_Inr)
  from look rec u v fin show ?thesis
    unfolding s2 by (intro that [of i child c2 rr u v]) simp_all
qed

lemma unspawned_visit_Inr:
  assumes "unspawned_visit rec X self g = Inr (self', r, g')"
  obtains Qc action_indices action_index g1 action where
    "is_ActionNode self"
    and "computePUCT self = Inr (Qc, action_indices)"
    and "list_get (actions self) action_index = Inr action"
    and "r = Some action"
    and "visit_tail rec X self action (P self) g1 = Inr (self', g')"
proof (cases self)
  case (SamplingNode b h msk ch)
  with assms show ?thesis by simp
next
  case (ActionNode b acts p ch sp)
  from assms obtain x where c: "computePUCT self = Inr x"
    and r1: "(case x of (Qc, action_indices) \<Rightarrow>
      ebind (if length action_indices = 1 then Inr (hd action_indices, g)
             else ebind (get_mixing_distribution self action_indices) (\<lambda>mixing_distr.
                    case p of None \<Rightarrow> Inl TypeError
                    | Some pr \<Rightarrow> choice g (length pr) mixing_distr)) (\<lambda>(action_index, g).
      ebind (list_get acts action_index) (\<lambda>action.
      ebind (visit_child rec self action g) (\<lambda>(self, child, g).
      ebind (calc_union_interval X self p) (\<lambda>union_interval.
      ebind (update_Q self union_interval child) (\<lambda>self.
        Inr (self, Some action, g))))))) = Inr (self', r, g')"
    unfolding ActionNode unspawned_visit.simps Let_def by (rule ebind_InrE)
  obtain Qc idxs where x: "x = (Qc, idxs)" by (cases x)
  from r1 x obtain y where
    r2: "(case y of (action_index, g) \<Rightarrow>
      ebind (list_get acts action_index) (\<lambda>action.
      ebind (visit_child rec self action g) (\<lambda>(self, child, g).
      ebind (calc_union_interval X self p) (\<lambda>union_interval.
      ebind (update_Q self union_interval child) (\<lambda>self.
        Inr (self, Some action, g)))))) = Inr (self', r, g')"
    by (auto elim: ebind_InrE)
  obtain idx g1 where y: "y = (idx, g1)" by (cases y)
  from r2 y obtain action where a: "list_get acts idx = Inr action"
    and r3: "ebind (visit_child rec self action g1) (\<lambda>(self, child, g).
      ebind (calc_union_interval X self p) (\<lambda>union_interval.
      ebind (update_Q self union_interval child) (\<lambda>self.
        Inr (self, Some action, g)))) = Inr (self', r, g')"
    by (auto elim: ebind_InrE)
  from r3 obtain s3 g3 where "(self', r, g') = (s3, Some action, g3)"
    and "visit_tail rec X self action p g1 = Inr (s3, g3)"
    by (rule tail_inversion [where F = "\<lambda>self g. (self, Some action, g)" and pf = "\<lambda>self. p"]) simp
  with c x a show ?thesis
    by (intro that [of Qc idxs idx action g1]) (simp_all add: ActionNode)
qed


lemma spawned_visit_Inr:
  assumes "spawned_visit rec X self g = Inr (self', g')"
  obtains Mt r0 ow r1 g1 r2 a g2 where
    "is_ActionNode self"
    and "spawned_tree self = Some (Tree Mt r0 ow)"
    and "if N (base r0) = 0 then (\<exists>x. rec r0 g = Inr (r1, x, g1)) else r1 = r0 \<and> g1 = g"
    and "rec r1 g1 = Inr (r2, Some a, g2)"
    and "visit_tail rec X (set_spawned_tree (Some (Tree Mt r2 ow)) self) a (P self) g2 = Inr (self', g')"
proof (cases self)
  case (SamplingNode b h msk ch)
  with assms show ?thesis by simp
next
  case (ActionNode b acts p ch sp)
  show ?thesis
  proof (cases sp)
    case None
    with assms ActionNode show ?thesis by simp
  next
    case (Some t)
    obtain Mt r0 ow where t: "t = Tree Mt r0 ow" by (cases t)
    from assms obtain x where
      boot: "(if N (base r0) = 0 then ebind (rec r0 g) (\<lambda>(r, x, g). Inr (r, g)) else Inr (r0, g)) = Inr x"
      and r1: "(case x of (r, g) \<Rightarrow>
         ebind (rec r g) (\<lambda>(r, action, g).
           let self = ActionNode b acts p ch (Some (Tree Mt r ow)) in
           ebind (case action of None \<Rightarrow> Inl KeyError | Some a \<Rightarrow> visit_child rec self a g) (\<lambda>(self, child, g).
           ebind (calc_union_interval X self p) (\<lambda>union_interval.
           ebind (update_Q self union_interval child) (\<lambda>self.
             Inr (self, g)))))) = Inr (self', g')"
      unfolding ActionNode Some t spawned_visit.simps by (rule ebind_InrE)
    obtain r1' g1 where x: "x = (r1', g1)" by (cases x)
    from boot x have b: "if N (base r0) = 0 then (\<exists>x. rec r0 g = Inr (r1', x, g1)) else r1' = r0 \<and> g1 = g"
      by (auto elim!: ebind_InrE split: if_splits)
    from r1 x obtain y where y: "rec r1' g1 = Inr y"
      and r2: "(case y of (r, action, g) \<Rightarrow>
           let self = ActionNode b acts p ch (Some (Tree Mt r ow)) in
           ebind (case action of None \<Rightarrow> Inl KeyError | Some a \<Rightarrow> visit_child rec self a g) (\<lambda>(self, child, g).
           ebind (calc_union_interval X self p) (\<lambda>union_interval.
           ebind (update_Q self union_interval child) (\<lambda>self.
             Inr (self, g))))) = Inr (self', g')"
      by (auto elim: ebind_InrE)
    obtain r2' action g2 where y2: "y = (r2', action, g2)" by (cases y)
    from r2 y2 obtain a where a: "action = Some a"
      by (cases action) (simp_all add: Let_def)
    from r2 y2 a have "ebind (visit_child rec (ActionNode b acts p ch (Some (Tree Mt r2' ow))) a g2)
           (\<lambda>(self, child, g).
           ebind (calc_union_interval X self p) (\<lambda>union_interval.
           ebind (update_Q self union_interval child) (\<lambda>self.
             Inr (self, g)))) = Inr (self', g')"
      by (simp add: Let_def)
    then have "visit_tail rec X (ActionNode b acts p ch (Some (Tree Mt r2' ow))) a p g2 = Inr (self', g')"
      by (simp add: visit_tail_def)
    with b y y2 a show ?thesis
      by (intro that [of Mt r0 ow r1' g1 r2' a g2]) (simp_all add: ActionNode Some t)
  qed
qed

lemma visit_step_ActionNode_cases:
  assumes "visit_step rec X M node g = Inr (node', r, g')" and "is_ActionNode node"
  obtains
    (terminal) "game_outcome (base node) \<noteq> None"
      and "node' = update_base (\<lambda>b. b\<lparr>N := N b + 1\<rparr>) node" and "r = None" and "g' = g"
  | (expand) "game_outcome (base node) = None" and "\<not> expanded (base node)"
      and "ActionNode_expand X M (update_base (\<lambda>b. b\<lparr>N := N b + 1\<rparr>) node) = Inr node'"
      and "r = None" and "g' = g"
  | (spawned) "game_outcome (base node) = None" and "expanded (base node)"
      and "spawned_tree node \<noteq> None"
      and "spawned_visit rec X (update_base (\<lambda>b. b\<lparr>N := N b + 1\<rparr>) node) g = Inr (node', g')"
      and "r = None"
  | (unspawned) "game_outcome (base node) = None" and "expanded (base node)"
      and "spawned_tree node = None"
      and "unspawned_visit rec X (update_base (\<lambda>b. b\<lparr>N := N b + 1\<rparr>) node) g = Inr (node', r, g')"
proof (cases node)
  case (SamplingNode b h msk ch)
  with assms(2) show ?thesis by simp
next
  case (ActionNode b acts p ch sp)
  show ?thesis
  proof (cases "game_outcome b = None")
    case False
    with assms(1) show ?thesis
      by (intro terminal) (auto simp add: ActionNode terminal_def)
  next
    case no_outcome: True
    show ?thesis
    proof (cases "expanded b")
      case False
      with assms(1) no_outcome show ?thesis
        by (intro expand) (auto simp add: ActionNode terminal_def elim!: ebind_InrE)
    next
      case is_expanded: True
      show ?thesis
      proof (cases sp)
        case None
        with assms(1) no_outcome is_expanded show ?thesis
          by (intro unspawned) (simp_all add: ActionNode terminal_def del: unspawned_visit.simps)
      next
        case (Some t)
        with assms(1) no_outcome is_expanded show ?thesis
          by (intro spawned) (auto simp add: ActionNode terminal_def simp del: spawned_visit.simps elim!: ebind_InrE)
      qed
    qed
  qed
qed

lemma visit_step_SamplingNode_Inr:
  assumes "visit_step rec X M node g = Inr (node', r, g')" and "\<not> is_ActionNode node"
  obtains mid hv k g1 where
    "if expanded (base node) then mid = update_base (\<lambda>b. b\<lparr>N := N b + 1\<rparr>) node
     else SamplingNode_expand X M (update_base (\<lambda>b. b\<lparr>N := N b + 1\<rparr>) node) = Inr mid"
    and "H mid = Some hv"
    and "choice g (length hv) hv = Inr (k, g1)"
    and "visit_tail rec X mid k (H mid) g1 = Inr (node', g')"
    and "r = None"
proof (cases node)
  case (ActionNode b acts p ch sp)
  with assms(2) show ?thesis by simp
next
  case (SamplingNode b h msk ch)
  let ?self = "SamplingNode (b\<lparr>N := N b + 1\<rparr>) h msk ch"
  from assms(1) obtain mid where
    mid: "(if \<not> expanded (base ?self) then SamplingNode_expand X M ?self else Inr ?self) = Inr mid"
    and r1: "ebind (case H mid of None \<Rightarrow> Inl TypeError | Some hv \<Rightarrow> choice g (length hv) hv) (\<lambda>(h, g).
      ebind (visit_child rec mid h g) (\<lambda>(self, child, g).
      ebind (calc_union_interval X self (H self)) (\<lambda>union_interval.
      ebind (update_Q self union_interval child) (\<lambda>self.
        Inr (self, None, g))))) = Inr (node', r, g')"
    unfolding SamplingNode visit_step.simps Let_def by (rule ebind_InrE)
  from r1 obtain x where
    ch: "(case H mid of None \<Rightarrow> Inl TypeError | Some hv \<Rightarrow> choice g (length hv) hv) = Inr x"
    and r2: "(case x of (h, g) \<Rightarrow>
      ebind (visit_child rec mid h g) (\<lambda>(self, child, g).
      ebind (calc_union_interval X self (H self)) (\<lambda>union_interval.
      ebind (update_Q self union_interval child) (\<lambda>self.
        Inr (self, None, g))))) = Inr (node', r, g')"
    by (rule ebind_InrE)
  obtain k g1 where x: "x = (k, g1)" by (cases x)
  from ch x obtain hv where hv: "H mid = Some hv" "choice g (length hv) hv = Inr (k, g1)"
    by (cases "H mid") simp_all
  from r2 x have "ebind (visit_child rec mid k g1) (\<lambda>(self, child, g).
      ebind (calc_union_interval X self (H self)) (\<lambda>union_interval.
      ebind (update_Q self union_interval child) (\<lambda>self.
        Inr (self, None, g)))) = Inr (node', r, g')"
    by simp
  then obtain s3 g3 where "(node', r, g') = (s3, None, g3)"
    and "visit_tail rec X mid k (H mid) g1 = Inr (s3, g3)"
    by (rule tail_inversion [where F = "\<lambda>self g. (self, None, g)" and pf = H]) simp
  with mid hv show ?thesis
    by (intro that [of mid hv k g1]) (auto simp add: SamplingNode split: if_splits)
qed

section \<open>Expansion\<close>

lemma update_base_more_sel [simp]:
  "H (update_base f self) = H self"
  "P (update_base f self) = P self"
  "actions (update_base f self) = actions self"
  "spawned_tree (update_base f self) = spawned_tree self"
  "H_mask (update_base f self) = H_mask self"
  by (cases self, simp_all add: H_def P_def actions_def spawned_tree_def H_mask_def)+

lemma set_spawned_tree_more_sel [simp]:
  "H (set_spawned_tree t self) = H self"
  "P (set_spawned_tree t self) = P self"
  "actions (set_spawned_tree t self) = actions self"
  "H_mask (set_spawned_tree t self) = H_mask self"
  "is_ActionNode self \<Longrightarrow> spawned_tree (set_spawned_tree t self) = t"
  by (cases self, simp_all add: H_def P_def actions_def spawned_tree_def H_mask_def)+

lemma add_child_more_sel [simp]:
  "H (add_child k node self) = H self"
  "P (add_child k node self) = P self"
  "actions (add_child k node self) = actions self"
  "spawned_tree (add_child k node self) = spawned_tree self"
  "H_mask (add_child k node self) = H_mask self"
  by (simp_all add: add_child_def)

lemma set_update_cases:
  "e \<in> set (AList.update k v al) \<Longrightarrow> e = (k, v) \<or> e \<in> set al"
  by (induction al) (auto split: if_splits)

lemma construct_child_base:
  assumes "base s1 = base s2"
  shows "construct_child X s1 a = construct_child X s2 a"
  unfolding construct_child_def assms ..

lemma fresh_child_base:
  assumes "base s1 = base s2"
  shows "fresh_child X M s1 a = fresh_child X M s2 a"
  unfolding fresh_child_def construct_child_base [OF assms] ..

lemma expand_action_Inr:
  assumes "expand_action X M a self = Inr self'"
  obtains node' where "fresh_child X M self a node'" and "self' = add_child a node' self"
  using assms
  by (auto simp add: expand_action_def CHEAT_def fresh_child_def elim!: ebind_InrE)

lemma expand_actions_preserves:
  assumes "expand_actions X M as self = Inr self'"
  shows "base self' = base self \<and> is_ActionNode self' = is_ActionNode self
       \<and> actions self' = actions self \<and> P self' = P self \<and> spawned_tree self' = spawned_tree self"
  using assms
proof (induction as arbitrary: self)
  case Nil
  then show ?case by simp
next
  case (Cons a as)
  from Cons.prems obtain s1 where s1: "expand_action X M a self = Inr s1"
    and rest: "expand_actions X M as s1 = Inr self'"
    by (auto elim: ebind_InrE)
  from s1 obtain node' where "s1 = add_child a node' self"
    by (rule expand_action_Inr)
  with Cons.IH [OF rest] show ?case by simp
qed

lemma expand_actions_children:
  assumes "expand_actions X M as self = Inr self'"
  shows "\<forall>e \<in> set (children self'). e \<in> set (children self)
           \<or> (fst e \<in> set as \<and> fresh_child X M self (fst e) (snd (snd e)))"
  using assms
proof (induction as arbitrary: self)
  case Nil
  then show ?case by simp
next
  case (Cons a as)
  from Cons.prems obtain s1 where s1: "expand_action X M a self = Inr s1"
    and rest: "expand_actions X M as s1 = Inr self'"
    by (auto elim: ebind_InrE)
  from s1 obtain node' where fresh: "fresh_child X M self a node'" and s1_eq: "s1 = add_child a node' self"
    by (rule expand_action_Inr)
  have same: "fresh_child X M s1 = fresh_child X M self"
    by (rule ext) (rule fresh_child_base, simp add: s1_eq)
  show ?case
  proof
    fix e
    assume "e \<in> set (children self')"
    with Cons.IH [OF rest] have "e \<in> set (children s1)
        \<or> (fst e \<in> set as \<and> fresh_child X M s1 (fst e) (snd (snd e)))"
      by blast
    then show "e \<in> set (children self)
        \<or> (fst e \<in> set (a # as) \<and> fresh_child X M self (fst e) (snd (snd e)))"
    proof
      assume "e \<in> set (children s1)"
      then have "e = (a, length (children self), node') \<or> e \<in> set (children self)"
        unfolding s1_eq by (auto dest: set_update_cases)
      with fresh show ?thesis by auto
    next
      assume "fst e \<in> set as \<and> fresh_child X M s1 (fst e) (snd (snd e))"
      then show ?thesis by (simp add: same)
    qed
  qed
qed

lemma expand_actions_keys:
  assumes "expand_actions X M as self = Inr self'"
  shows "set (map fst (children self')) = set (map fst (children self)) \<union> set as
       \<and> (distinct (map fst (children self)) \<longrightarrow> distinct (map fst (children self')))"
  using assms
proof (induction as arbitrary: self)
  case Nil
  then show ?case by simp
next
  case (Cons a as)
  from Cons.prems obtain s1 where s1: "expand_action X M a self = Inr s1"
    and rest: "expand_actions X M as s1 = Inr self'"
    by (auto elim: ebind_InrE)
  from s1 obtain node' where s1_eq: "s1 = add_child a node' self"
    by (rule expand_action_Inr)
  have "set (map fst (children s1)) = insert a (set (map fst (children self)))"
    and "distinct (map fst (children self)) \<longrightarrow> distinct (map fst (children s1))"
    by (auto simp add: s1_eq update_keys distinct_update)
  with Cons.IH [OF rest] show ?case by auto
qed


lemma expand_actions_other_keys:
  assumes "expand_actions X M as self = Inr self'" and "k \<notin> set as"
  shows "map_of (children self') k = map_of (children self) k"
  using assms
proof (induction as arbitrary: self)
  case Nil
  then show ?case by simp
next
  case (Cons a as)
  from Cons.prems(1) obtain s1 where s1: "expand_action X M a self = Inr s1"
    and rest: "expand_actions X M as s1 = Inr self'"
    by (auto elim: ebind_InrE)
  from s1 obtain node' where s1_eq: "s1 = add_child a node' self"
    by (rule expand_action_Inr)
  from Cons.prems(2) have "k \<noteq> a" "k \<notin> set as" by auto
  with Cons.IH [OF rest] show ?case
    by (simp add: s1_eq update_conv')
qed

lemma expand_actions_lookup:
  assumes "expand_actions X M as self = Inr self'" and "a \<in> set as"
  shows "\<exists>i node'. map_of (children self') a = Some (i, node') \<and> fresh_child X M self a node'"
  using assms
proof (induction as arbitrary: self)
  case Nil
  then show ?case by simp
next
  case (Cons a' as)
  from Cons.prems(1) obtain s1 where s1: "expand_action X M a' self = Inr s1"
    and rest: "expand_actions X M as s1 = Inr self'"
    by (auto elim: ebind_InrE)
  from s1 obtain node' where fresh: "fresh_child X M self a' node'" and s1_eq: "s1 = add_child a' node' self"
    by (rule expand_action_Inr)
  have same: "fresh_child X M s1 a = fresh_child X M self a"
    by (rule fresh_child_base) (simp add: s1_eq)
  show ?case
  proof (cases "a \<in> set as")
    case True
    from Cons.IH [OF rest True] show ?thesis
      by (simp add: same)
  next
    case False
    with Cons.prems(2) have a: "a = a'" by simp
    from expand_actions_other_keys [OF rest False]
    have "map_of (children self') a = Some (length (children self), node')"
      by (simp add: s1_eq a update_conv')
    with fresh a show ?thesis by blast
  qed
qed

lemma eval_model_ok:
  assumes "node_ok node" and "eval_model M node = Inr node'"
  shows "node_ok node'"
  using assms
  by (cases node) (auto simp add: base_ok_def ebind_eq_Inr split: if_splits prod.splits)

lemma node_ok_sel:
  "node_ok node \<longleftrightarrow>
     base_ok (base node) \<and> (\<forall>e \<in> set (children node). node_ok (snd (snd e)))
     \<and> (is_ActionNode node \<longrightarrow> (\<forall>t \<in> set_option (spawned_tree node). tree_ok t))"
  by (cases node) auto

lemma constructed_ok:
  "SamplingNode_init X s owner (Scalar q) = Inr node \<Longrightarrow>
     node_ok node \<and> N (base node) = 0 \<and> children node = [] \<and> \<not> expanded (base node)"
  "ActionNode_init X s owner (Scalar q) = Inr node \<Longrightarrow>
     node_ok node \<and> N (base node) = 0 \<and> children node = [] \<and> \<not> expanded (base node)"
  by (auto simp add: SamplingNode_init_Inr base_ok_def node_ok_sel [of node] dest!: ActionNode_init_Inr)

lemma fresh_child_props:
  assumes "fresh_child X M self a node'"
  shows "node_ok node' \<and> N (base node') = 0 \<and> children node' = [] \<and> \<not> expanded (base node')"
proof -
  from assms obtain node where c: "construct_child X self a = Inr node"
    and e: "eval_model M node = Inr node'"
    by (auto simp add: fresh_child_def)
  from c have "node_ok node \<and> N (base node) = 0 \<and> children node = [] \<and> \<not> expanded (base node)"
    by (auto simp add: construct_child_def Let_def elim!: ebind_InrE split: if_splits
        dest: constructed_ok)
  with eval_model_ok [OF _ e] eval_model_preserves [OF e] show ?thesis
    by simp
qed

lemma ActionNode_expand_Inr:
  assumes "ActionNode_expand X M self = Inr self'" and "game_outcome (base self) = None"
  obtains s1 s2 v where
    "eval_model M (update_base (\<lambda>b. b\<lparr>expanded := True\<rparr>) self) = Inr s1"
    and "expand_actions X M (actions s1) s1 = Inr s2"
    and "V (base s2) = Some v"
    and "self' = update_base (\<lambda>b. b\<lparr>Q := (v, v)\<rparr>) s2"
proof -
  let ?s0 = "update_base (\<lambda>b. b\<lparr>expanded := True\<rparr>) self"
  from assms obtain s1 where s1: "eval_model M ?s0 = Inr s1"
    and r1: "ebind (expand_actions X M (actions s1) s1) (\<lambda>self.
             case V (base self) of
               None \<Rightarrow> Inl TypeError
             | Some v \<Rightarrow> Inr (update_base (\<lambda>b. b\<lparr>Q := to_interval (Scalar v)\<rparr>) self)) = Inr self'"
    by (auto simp add: ActionNode_expand_def Let_def terminal_def elim!: ebind_InrE)
  from r1 obtain s2 where s2: "expand_actions X M (actions s1) s1 = Inr s2"
    and r2: "(case V (base s2) of
               None \<Rightarrow> Inl TypeError
             | Some v \<Rightarrow> Inr (update_base (\<lambda>b. b\<lparr>Q := to_interval (Scalar v)\<rparr>) s2)) = Inr self'"
    by (rule ebind_InrE)
  from r2 obtain v where "V (base s2) = Some v" "self' = update_base (\<lambda>b. b\<lparr>Q := (v, v)\<rparr>) s2"
    by (cases "V (base s2)") auto
  with s1 s2 show ?thesis by (rule that)
qed


lemma fresh_child_terminal:
  assumes "fresh_child X M self a node'"
    and "\<not> (cp (base self) \<noteq> get_current_player X (info_apply X (info_set (base self)) a)
            \<and> has_hidden_info X (info_apply X (info_set (base self)) a))"
    and "get_game_outcome X (info_apply X (info_set (base self)) a) = Some outcome"
  shows "\<exists>p v. tree_owner (base self) = Some p \<and> outcome p = Some v \<and> is_ActionNode node'
           \<and> terminal node' \<and> Q (base node') = (v, v) \<and> V (base node') = Some v"
proof -
  let ?s = "info_apply X (info_set (base self)) a"
  from assms(1) obtain node where c: "construct_child X self a = Inr node"
    and e: "eval_model M node = Inr node'"
    by (auto simp add: fresh_child_def)
  from c assms(2) obtain q where "ActionNode_init X ?s (tree_owner (base self)) (Scalar q) = Inr node"
    by (auto simp add: construct_child_def Let_def elim!: ebind_InrE split: if_splits)
  from ActionNode_init_Inr [OF this] assms(3) obtain p v where
    pv: "tree_owner (base self) = Some p" "outcome p = Some v"
    and node: "is_ActionNode node" "base node = (Node_init X ?s (tree_owner (base self)) (Scalar q))\<lparr>V := Some v, Q := (v, v)\<rparr>"
    by auto
  from node assms(3) have ended: "game_outcome (base node) \<noteq> None"
    by simp
  with node(1) e have "node' = node"
    by (cases node) auto
  with pv node ended show ?thesis
    by (simp add: terminal_def)
qed

text \<open>
  Claim C5. The first visit of an \<^verbatim>\<open>ActionNode\<close> that is not terminal and not yet
  expanded, when it returns, has only expanded the node: it returns \<^verbatim>\<open>None\<close>, draws
  nothing from the generator, has incremented \<^verbatim>\<open>N\<close> and set the flag, and has created
  exactly one child per legal action, none of which was visited or expanded. A legal
  action whose successor is terminal (and is not given the class \<^verbatim>\<open>SamplingNode\<close>) has
  a terminal child whose \<open>Q\<close> is the outcome for the tree owner, taken twice, and whose
  \<open>N\<close> is zero.
\<close>

theorem first_visit_expands_only:
  assumes run: "visit (Suc d) X M (ActionNode b acts p [] sp) g = Inr (node', r, g')"
    and no_outcome: "game_outcome b = None" and fresh: "\<not> expanded b"
  shows "r = None \<and> g' = g \<and> is_ActionNode node'
       \<and> N (base node') = N b + 1 \<and> expanded (base node')
       \<and> distinct (map fst (children node')) \<and> set (map fst (children node')) = set acts
       \<and> (\<forall>e \<in> set (children node'). N (base (snd (snd e))) = 0 \<and> children (snd (snd e)) = []
              \<and> \<not> expanded (base (snd (snd e))))
       \<and> (\<forall>a \<in> set acts. \<forall>outcome.
              \<not> (cp b \<noteq> get_current_player X (info_apply X (info_set b) a)
                 \<and> has_hidden_info X (info_apply X (info_set b) a))
              \<and> get_game_outcome X (info_apply X (info_set b) a) = Some outcome \<longrightarrow>
              (\<exists>i child q v. map_of (children node') a = Some (i, child) \<and> tree_owner b = Some q
                 \<and> outcome q = Some v \<and> is_ActionNode child \<and> terminal child
                 \<and> Q (base child) = (v, v) \<and> N (base child) = 0))"
proof -
  let ?self = "ActionNode (b\<lparr>N := N b + 1\<rparr>) acts p [] sp"
  from run no_outcome fresh have ex: "ActionNode_expand X M ?self = Inr node'"
    and r: "r = None" "g' = g"
    by (auto simp add: terminal_def elim!: ebind_InrE)
  from ex no_outcome obtain s1 s2 v where
    s1: "eval_model M (update_base (\<lambda>b. b\<lparr>expanded := True\<rparr>) ?self) = Inr s1"
    and s2: "expand_actions X M (actions s1) s1 = Inr s2"
    and node': "node' = update_base (\<lambda>b. b\<lparr>Q := (v, v)\<rparr>) s2"
    by (auto elim: ActionNode_expand_Inr)
  note p1 = eval_model_preserves [OF s1]
  from p1 have acts: "actions s1 = acts" and ch1: "children s1 = []" and kind1: "is_ActionNode s1"
    by simp_all
  from p1 have b1: "info_set (base s1) = info_set b" "cp (base s1) = cp b"
    "tree_owner (base s1) = tree_owner b" "N (base s1) = N b + 1" "expanded (base s1)"
    by simp_all
  note p2 = expand_actions_preserves [OF s2]
  have basics: "is_ActionNode node'" "N (base node') = N b + 1" "expanded (base node')"
    using p2 kind1 b1 by (simp_all add: node')
  have keys: "distinct (map fst (children node'))" "set (map fst (children node')) = set acts"
    using expand_actions_keys [OF s2] by (simp_all add: node' ch1 acts)
  have kids: "N (base (snd (snd e))) = 0 \<and> children (snd (snd e)) = [] \<and> \<not> expanded (base (snd (snd e)))"
    if "e \<in> set (children node')" for e
  proof -
    from that expand_actions_children [OF s2] have "fresh_child X M s1 (fst e) (snd (snd e))"
      by (auto simp add: node' ch1)
    from fresh_child_props [OF this] show ?thesis by simp
  qed
  have leaves: "\<exists>i child q v. map_of (children node') a = Some (i, child) \<and> tree_owner b = Some q
                 \<and> outcome q = Some v \<and> is_ActionNode child \<and> terminal child
                 \<and> Q (base child) = (v, v) \<and> N (base child) = 0"
    if a: "a \<in> set acts"
      and same: "\<not> (cp b \<noteq> get_current_player X (info_apply X (info_set b) a)
                 \<and> has_hidden_info X (info_apply X (info_set b) a))"
      and out: "get_game_outcome X (info_apply X (info_set b) a) = Some outcome" for a outcome
  proof -
    from a have "a \<in> set (actions s1)"
      by (simp add: acts)
    from expand_actions_lookup [OF s2 this] obtain i child where
      look: "map_of (children s2) a = Some (i, child)" and fc: "fresh_child X M s1 a child"
      by blast
    from fresh_child_terminal [OF fc] same out obtain q v where
      "tree_owner b = Some q" "outcome q = Some v" "is_ActionNode child" "terminal child"
      "Q (base child) = (v, v)"
      by (auto simp add: b1)
    with look fresh_child_props [OF fc] show ?thesis
      by (simp add: node')
  qed
  from r basics keys kids leaves show ?thesis
    by blast
qed


lemma demo_first_visit:
  "visit (Suc 0) demo_env demo_model demo_root demo_rng = Inr (demo_root_expanded, None, demo_rng)"
  by (simp add: demo_root_def demo_root_expanded_def demo_leaf_def terminal_def
      ActionNode_expand_def expand_action_def construct_child_def index_Vc_def list_get_def
      ActionNode_init_def add_child_def CHEAT_def Let_def)

theorem first_visit_expands_only_witness:
  "visit (Suc 0) demo_env demo_model demo_root demo_rng = Inr (demo_root_expanded, None, demo_rng)
   \<and> game_outcome (base demo_root) = None \<and> \<not> expanded (base demo_root)
   \<and> N (base demo_root) = 0 \<and> N (base demo_root_expanded) = 1
   \<and> children demo_root_expanded = [(0, 0, demo_leaf 1 (1 / 4) 1), (1, 1, demo_leaf 2 (3 / 4) 0)]
   \<and> terminal (demo_leaf 1 (1 / 4) 1) \<and> Q (base (demo_leaf 1 (1 / 4) 1)) = (1, 1)
   \<and> N (base (demo_leaf 1 (1 / 4) 1)) = 0
   \<and> terminal (demo_leaf 2 (3 / 4) 0) \<and> Q (base (demo_leaf 2 (3 / 4) 0)) = (0, 0)
   \<and> N (base (demo_leaf 2 (3 / 4) 0)) = 0
   \<and> set (map fst (children demo_root_expanded)) = set (actions demo_root)"
proof -
  let ?b = "Node_init demo_env 0 (Some 0) (Scalar 0)"
  have run: "visit (Suc 0) demo_env demo_model (ActionNode ?b [0, 1] None [] None) demo_rng =
      Inr (demo_root_expanded, None, demo_rng)"
    using demo_first_visit by (simp only: demo_root_def)
  have h1: "game_outcome ?b = None" and h2: "\<not> expanded ?b"
    by simp_all
  from first_visit_expands_only [OF run h1 h2]
  have "set (map fst (children demo_root_expanded)) = set [0, 1]"
    by blast
  moreover have "children demo_root_expanded = [(0, 0, demo_leaf 1 (1 / 4) 1), (1, 1, demo_leaf 2 (3 / 4) 0)]"
    by (simp add: demo_root_expanded_def)
  ultimately show ?thesis
    using demo_first_visit
    by (simp add: demo_root_def demo_root_expanded_def demo_leaf_def terminal_def)
qed

section \<open>What a visit returns\<close>

lemma list_get_Inr: "list_get xs i = Inr x \<longleftrightarrow> i < length xs \<and> x = xs ! i"
  by (auto simp add: list_get_def)

lemma visit_step_returns_action:
  assumes "visit_step rec X M node g = Inr (node', Some a, g')"
  shows "is_ActionNode node \<and> game_outcome (base node) = None \<and> expanded (base node)
       \<and> spawned_tree node = None \<and> a \<in> set (actions node)"
proof (cases "is_ActionNode node")
  case False
  with assms show ?thesis
    by (auto elim: visit_step_SamplingNode_Inr)
next
  case True
  from assms True show ?thesis
  proof (cases rule: visit_step_ActionNode_cases)
    case unspawned
    from unspawned(4) obtain idx where "list_get (actions node) idx = Inr a"
      by (auto elim!: unspawned_visit_Inr)
    then have "a \<in> set (actions node)"
      by (simp add: list_get_Inr)
    with unspawned True show ?thesis by simp
  qed simp_all
qed

lemma visit_returns_action:
  assumes "visit d X M node g = Inr (node', Some a, g')"
  shows "is_ActionNode node \<and> game_outcome (base node) = None \<and> expanded (base node)
       \<and> spawned_tree node = None \<and> a \<in> set (actions node)"
proof (cases d)
  case 0
  with assms show ?thesis by simp
next
  case (Suc d')
  with assms have "visit_step (visit d' X M) X M node g = Inr (node', Some a, g')"
    by simp
  then show ?thesis by (rule visit_step_returns_action)
qed

text \<open>
  Claim C10. A visit returns an action only when the node is an \<^verbatim>\<open>ActionNode\<close> that is
  not terminal, is already expanded and has no spawned tree, and then it is one of its
  legal actions; on a terminal node, on the first visit, on the spawned path and on every
  \<^verbatim>\<open>SamplingNode\<close> it returns \<^verbatim>\<open>None\<close>. So when \<^verbatim>\<open>spawned_visit\<close> returns, the visit of
  the spawned root from which it took the action was of that kind (after the extra first
  visit when the root had none), and the action is a key of the children; when that visit
  returns \<^verbatim>\<open>None\<close>, the lookup \<^verbatim>\<open>self.children[action]\<close> raises.
\<close>

theorem visit_return_value:
  "(visit d X M node g = Inr (node', Some a, g') \<longrightarrow>
      is_ActionNode node \<and> game_outcome (base node) = None \<and> expanded (base node)
      \<and> spawned_tree node = None \<and> a \<in> set (actions node))
   \<and> (visit d X M node g = Inr (node', r, g')
        \<and> (\<not> is_ActionNode node \<or> game_outcome (base node) \<noteq> None \<or> \<not> expanded (base node)
            \<or> spawned_tree node \<noteq> None) \<longrightarrow> r = None)
   \<and> (spawned_visit (visit d X M) X self g = Inr (self', g'') \<longrightarrow>
        (\<exists>Mt r0 ow r1 g1 r2 k g2.
            spawned_tree self = Some (Tree Mt r0 ow)
          \<and> (if N (base r0) = 0 then \<exists>x. visit d X M r0 g = Inr (r1, x, g1) else r1 = r0 \<and> g1 = g)
          \<and> visit d X M r1 g1 = Inr (r2, Some k, g2)
          \<and> is_ActionNode r1 \<and> game_outcome (base r1) = None \<and> expanded (base r1)
          \<and> spawned_tree r1 = None
          \<and> k \<in> fst ` set (children self)))
   \<and> (N (base rt) \<noteq> 0 \<and> visit d X M rt g = Inr (rt', None, h) \<longrightarrow>
        spawned_visit (visit d X M) X (ActionNode b acts p ch (Some (Tree Mt rt ow))) g = Inl KeyError)"
proof -
  have some: "is_ActionNode node \<and> game_outcome (base node) = None \<and> expanded (base node)
      \<and> spawned_tree node = None \<and> a \<in> set (actions node)"
    if "visit d X M node g = Inr (node', Some a, g')"
    using that by (rule visit_returns_action)
  have none: "r = None"
    if "visit d X M node g = Inr (node', r, g')"
      and "\<not> is_ActionNode node \<or> game_outcome (base node) \<noteq> None \<or> \<not> expanded (base node)
            \<or> spawned_tree node \<noteq> None"
  proof (cases r)
    case None
    then show ?thesis .
  next
    case (Some k)
    with that(1) have "visit d X M node g = Inr (node', Some k, g')" by simp
    from visit_returns_action [OF this] that(2) show ?thesis by simp
  qed
  have spawned: "\<exists>Mt r0 ow r1 g1 r2 k g2.
            spawned_tree self = Some (Tree Mt r0 ow)
          \<and> (if N (base r0) = 0 then \<exists>x. visit d X M r0 g = Inr (r1, x, g1) else r1 = r0 \<and> g1 = g)
          \<and> visit d X M r1 g1 = Inr (r2, Some k, g2)
          \<and> is_ActionNode r1 \<and> game_outcome (base r1) = None \<and> expanded (base r1)
          \<and> spawned_tree r1 = None
          \<and> k \<in> fst ` set (children self)"
    if "spawned_visit (visit d X M) X self g = Inr (self', g'')"
  proof -
    from that obtain Mt r0 ow r1 g1 r2 k g2 where
      sp: "spawned_tree self = Some (Tree Mt r0 ow)"
      and boot: "if N (base r0) = 0 then (\<exists>x. visit d X M r0 g = Inr (r1, x, g1)) else r1 = r0 \<and> g1 = g"
      and sel: "visit d X M r1 g1 = Inr (r2, Some k, g2)"
      and tail: "visit_tail (visit d X M) X (set_spawned_tree (Some (Tree Mt r2 ow)) self) k (P self) g2 = Inr (self', g'')"
      by (rule spawned_visit_Inr)
    from tail obtain i child where "map_of (children self) k = Some (i, child)"
      by (auto elim!: visit_tail_Inr)
    then have "k \<in> fst ` set (children self)"
      by (metis domI dom_map_of_conv_image_fst)
    with sp boot sel visit_returns_action [OF sel] show ?thesis
      by blast
  qed
  have key_error: "spawned_visit (visit d X M) X (ActionNode b acts p ch (Some (Tree Mt rt ow))) g = Inl KeyError"
    if "N (base rt) \<noteq> 0 \<and> visit d X M rt g = Inr (rt', None, h)"
    using that by simp
  from some none spawned key_error show ?thesis
    by blast
qed


text \<open>Runs on the small game.\<close>

lemma demo_create_spawned_tree:
  "create_spawned_tree demo_env demo_model (20 + h) = Inr (Tree demo_model demo_spawned_root 1)"
  if "h = 0 \<or> h = 1"
  using that
  by (auto simp add: create_spawned_tree_def redacted_clone_def ActionNode_init_def Tree_init_def
      demo_spawned_root_def numeral_2_eq_2 Let_def)

lemma demo_expand_hidden_state:
  "expand_hidden_state demo_env demo_model h self =
     Inr (add_child h (demo_hidden_child h ([1 / 4, 3 / 4, 0] ! h)) self)"
  if "h = 0 \<or> h = 1" and "info_set (base self) = 11" and "tree_owner (base self) = Some 0"
    and "Vc (base self) = Some [1 / 4, 3 / 4, 0]"
  using that
  by (auto simp add: expand_hidden_state_def demo_create_spawned_tree index_Vc_def list_get_def
      ActionNode_init_def demo_hidden_child_def CHEAT_def Let_def)


lemma visit_terminal:
  "game_outcome b \<noteq> None \<Longrightarrow>
     visit (Suc d) X M (ActionNode b acts p ch sp) g =
       Inr (ActionNode (b\<lparr>N := N b + 1\<rparr>) acts p ch sp, None, g)"
  by (simp add: terminal_def)

lemma demo_spawned_root_first_visit:
  "visit (Suc d) demo_env demo_model demo_spawned_root g = Inr (demo_spawned_root_expanded, None, g)"
  by (simp add: demo_spawned_root_def demo_spawned_root_expanded_def demo_leaf_of_def terminal_def
      ActionNode_expand_def expand_action_def construct_child_def index_Vc_def list_get_def
      ActionNode_init_def add_child_def CHEAT_def Let_def)

lemma demo_spawned_root_PUCT:
  "computePUCT (update_base (\<lambda>b. b\<lparr>N := N b + 1\<rparr>) demo_spawned_root_expanded) = Inr ([(0, 0), (1, 1)], [1])"
  by (simp add: np_sum_short float64_threshold_one demo_spawned_root_expanded_def demo_leaf_of_def broadcast2_def c_PUCT_def Let_def)


lemma demo_spawned_root_second_visit:
  "visit (Suc (Suc d)) demo_env demo_model demo_spawned_root_expanded g =
     Inr (demo_spawned_root_visited, Some 1, g)"
  by (simp add: np_sum_short float64_threshold_one demo_spawned_root_expanded_def demo_spawned_root_visited_def demo_leaf_of_def
      terminal_def broadcast2_def c_PUCT_def Let_def list_get_def visit_child_def get_child_def
      calc_union_interval_def get_Vc_def fancy_index_def demo_perturb_def EPS_def update_Q_def)


lemma demo_hidden_child_first_visit:
  "h = 0 \<or> h = 1 \<Longrightarrow>
   visit (Suc d) demo_env demo_model (demo_hidden_child h q) g =
     Inr (demo_hidden_child_expanded h q, None, g)"
  by (auto simp add: demo_hidden_child_def demo_hidden_child_expanded_def demo_leaf_def terminal_def
      ActionNode_expand_def expand_action_def construct_child_def index_Vc_def list_get_def
      ActionNode_init_def add_child_def CHEAT_def Let_def)

lemma demo_spawned_root_unvisited [simp]: "N (base demo_spawned_root) = 0"
  by (simp add: demo_spawned_root_def)

lemma demo_spawned_visit:
  "spawned_visit (visit (Suc (Suc d)) demo_env demo_model) demo_env
     (update_base (\<lambda>b. b\<lparr>N := N b + 1\<rparr>) (demo_hidden_child_expanded h q)) g =
     Inr (demo_hidden_child_visited h q, g)"
  by (simp add: demo_hidden_child_expanded_def demo_hidden_child_visited_def demo_leaf_def
      demo_spawned_root_first_visit demo_spawned_root_second_visit visit_terminal
      visit_child_def get_child_def calc_union_interval_def get_Vc_def fancy_index_def
      demo_perturb_def EPS_def update_Q_def Let_def
      del: visit.simps)


theorem visit_return_value_witness:
  "visit (Suc (Suc 0)) demo_env demo_model demo_spawned_root_expanded demo_rng =
     Inr (demo_spawned_root_visited, Some 1, demo_rng)
   \<and> is_ActionNode demo_spawned_root_expanded
   \<and> game_outcome (base demo_spawned_root_expanded) = None
   \<and> expanded (base demo_spawned_root_expanded)
   \<and> spawned_tree demo_spawned_root_expanded = None
   \<and> visit (Suc (Suc 0)) demo_env demo_model demo_spawned_root demo_rng =
       Inr (demo_spawned_root_expanded, None, demo_rng)
   \<and> \<not> expanded (base demo_spawned_root)
   \<and> spawned_visit (visit (Suc (Suc 0)) demo_env demo_model) demo_env
         (update_base (\<lambda>b. b\<lparr>N := N b + 1\<rparr>) (demo_hidden_child_expanded 0 (1 / 4))) demo_rng =
       Inr (demo_hidden_child_visited 0 (1 / 4), demo_rng)
   \<and> (\<exists>r1 g1 r2 k g2.
          visit (Suc (Suc 0)) demo_env demo_model r1 g1 = Inr (r2, Some k, g2)
        \<and> expanded (base r1) \<and> spawned_tree r1 = None)
   \<and> N (base demo_spawned_root_expanded) \<noteq> 0
   \<and> visit (Suc 0) demo_env demo_model (demo_leaf 1 (1 / 4) 1) demo_rng =
       Inr (update_base (\<lambda>b. b\<lparr>N := 1\<rparr>) (demo_leaf 1 (1 / 4) 1), None, demo_rng)
   \<and> spawned_visit (visit (Suc 0) demo_env demo_model) demo_env
         (ActionNode (Node_init demo_env 20 (Some 0) (Scalar 0)) [0, 1] None []
            (Some (Tree demo_model (update_base (\<lambda>b. b\<lparr>N := 1\<rparr>) (demo_leaf 1 (1 / 4) 1)) 1)))
         demo_rng = Inl KeyError"
proof -
  let ?self = "update_base (\<lambda>b. b\<lparr>N := N b + 1\<rparr>) (demo_hidden_child_expanded 0 (1 / 4))"
  let ?leaf = "update_base (\<lambda>b. b\<lparr>N := 1\<rparr>) (demo_leaf 1 (1 / 4) 1)"
  have run1: "visit (Suc (Suc 0)) demo_env demo_model demo_spawned_root_expanded demo_rng =
      Inr (demo_spawned_root_visited, Some 1, demo_rng)"
    by (rule demo_spawned_root_second_visit)
  have run2: "visit (Suc (Suc 0)) demo_env demo_model demo_spawned_root demo_rng =
      Inr (demo_spawned_root_expanded, None, demo_rng)"
    by (rule demo_spawned_root_first_visit)
  have run3: "spawned_visit (visit (Suc (Suc 0)) demo_env demo_model) demo_env ?self demo_rng =
      Inr (demo_hidden_child_visited 0 (1 / 4), demo_rng)"
    by (rule demo_spawned_visit)
  have run4: "visit (Suc 0) demo_env demo_model ?leaf demo_rng =
      Inr (update_base (\<lambda>b. b\<lparr>N := 2\<rparr>) (demo_leaf 1 (1 / 4) 1), None, demo_rng)"
    by (simp add: demo_leaf_def terminal_def)
  have run5: "visit (Suc 0) demo_env demo_model (demo_leaf 1 (1 / 4) 1) demo_rng =
      Inr (?leaf, None, demo_rng)"
    by (simp add: demo_leaf_def terminal_def)
  have visited: "N (base ?leaf) \<noteq> 0" "N (base demo_spawned_root_expanded) \<noteq> 0"
    "\<not> expanded (base demo_spawned_root)"
    by (simp_all add: demo_spawned_root_expanded_def demo_spawned_root_def)
  from visit_return_value [where d = "Suc (Suc 0)" and X = demo_env and M = demo_model
      and node = demo_spawned_root_expanded and g = demo_rng and node' = demo_spawned_root_visited
      and a = 1 and g' = demo_rng and self = ?self and self' = "demo_hidden_child_visited 0 (1 / 4)"
      and g'' = demo_rng] run1 run3
  have c1: "is_ActionNode demo_spawned_root_expanded
      \<and> game_outcome (base demo_spawned_root_expanded) = None
      \<and> expanded (base demo_spawned_root_expanded)
      \<and> spawned_tree demo_spawned_root_expanded = None"
    and c3: "\<exists>r1 g1 r2 k g2.
          visit (Suc (Suc 0)) demo_env demo_model r1 g1 = Inr (r2, Some k, g2)
        \<and> expanded (base r1) \<and> spawned_tree r1 = None"
    by blast+
  from visit_return_value [where d = "Suc 0" and X = demo_env and M = demo_model
      and rt = ?leaf and g = demo_rng and rt' = "update_base (\<lambda>b. b\<lparr>N := 2\<rparr>) (demo_leaf 1 (1 / 4) 1)"
      and h = demo_rng and b = "Node_init demo_env 20 (Some 0) (Scalar 0)" and acts = "[0, 1]"
      and p = None and ch = "[]" and Mt = demo_model and ow = 1] run4 visited(1)
  have c4: "spawned_visit (visit (Suc 0) demo_env demo_model) demo_env
         (ActionNode (Node_init demo_env 20 (Some 0) (Scalar 0)) [0, 1] None []
            (Some (Tree demo_model ?leaf 1))) demo_rng = Inl KeyError"
    by blast
  from run1 c1 run2 visited run3 c3 run5 c4 show ?thesis
    by blast
qed

section \<open>Visit counts and ordered intervals\<close>

lemma add_residual_ordered:
  "fst u \<le> snd u \<Longrightarrow> residual_ok r \<Longrightarrow> fst (add_residual u r) \<le> snd (add_residual u r)"
  by (cases u; cases r rule: residual_ok.cases) simp_all

lemma update_residual_ok:
  assumes "residual_ok r" and "fst q \<le> snd q" and "0 < n"
  shows "residual_ok (update_residual r n q v)"
proof -
  obtain l u where q: "q = (l, u)" by (cases q)
  from assms(3) have n: "0 \<le> real n - 1" "0 < real n" by simp_all
  show ?thesis
  proof (cases r rule: residual_ok.cases)
    case (1 x)
    with assms(2) n show ?thesis
      by (simp add: q divide_right_mono)
  next
    case (2 rl ru)
    with assms(1) n have "rl * (real n - 1) \<le> ru * (real n - 1)"
      by (simp add: mult_right_mono)
    with assms(2) have "rl * (real n - 1) + l - v \<le> ru * (real n - 1) + u - v"
      by (simp add: q)
    with n 2 show ?thesis
      by (simp add: q divide_right_mono)
  qed
qed

lemma calc_union_interval_ordered:
  assumes "perturb_ordered X" and "calc_union_interval X self probs = Inr u"
  shows "fst u \<le> snd u"
proof -
  from assms(2) obtain ivs w where "perturb_prob_simplex X ivs w EPS = Inr u"
    by (auto simp add: calc_union_interval_def Let_def elim!: ebind_InrE)
  with assms(1) show ?thesis
    by (cases u) (auto simp add: perturb_ordered_def)
qed

lemma node_ok_update_base:
  "node_ok (update_base f n) \<longleftrightarrow>
     base_ok (f (base n)) \<and> (\<forall>e \<in> set (children n). node_ok (snd (snd e)))
     \<and> (is_ActionNode n \<longrightarrow> (\<forall>t \<in> set_option (spawned_tree n). tree_ok t))"
  by (cases n) auto

lemma node_ok_set_children:
  "node_ok (set_children ch n) \<longleftrightarrow>
     base_ok (base n) \<and> (\<forall>e \<in> set ch. node_ok (snd (snd e)))
     \<and> (is_ActionNode n \<longrightarrow> (\<forall>t \<in> set_option (spawned_tree n). tree_ok t))"
  by (cases n) auto

lemma node_ok_set_spawned_tree:
  "node_ok (set_spawned_tree sp n) \<longleftrightarrow>
     base_ok (base n) \<and> (\<forall>e \<in> set (children n). node_ok (snd (snd e)))
     \<and> (is_ActionNode n \<longrightarrow> (\<forall>t \<in> set_option sp. tree_ok t))"
  by (cases n) auto

lemma node_ok_add_child:
  "node_ok n \<Longrightarrow> node_ok c \<Longrightarrow> node_ok (add_child k c n)"
  by (auto simp add: add_child_def node_ok_set_children node_ok_sel [of n] dest: set_update_cases)

lemma visit_tail_base:
  assumes "visit_tail rec X mid key probs g1 = Inr (self', g')"
  shows "N (base self') = N (base mid)" and "is_ActionNode self' = is_ActionNode mid"
    and "V (base self') = V (base mid)" and "game_outcome (base self') = game_outcome (base mid)"
    and "expanded (base self') = expanded (base mid)"
    and "spawned_tree self' = spawned_tree mid" and "actions self' = actions mid"
  using assms by (auto elim!: visit_tail_Inr)

lemma visit_tail_ok:
  assumes rec_ok: "\<And>c g c' r g'. node_ok c \<Longrightarrow> rec c g = Inr (c', r, g') \<Longrightarrow> node_ok c'"
    and ordered: "perturb_ordered X" and ok: "node_ok mid" and visited: "0 < N (base mid)"
    and run: "visit_tail rec X mid key probs g1 = Inr (self', g')"
  shows "node_ok self'"
proof -
  from run obtain i child child' rr u v where
    look: "map_of (children mid) key = Some (i, child)"
    and rec: "rec child g1 = Inr (child', rr, g')"
    and union: "calc_union_interval X (set_children (AList.update key (i, child') (children mid)) mid) probs = Inr u"
    and self': "self' = update_base (\<lambda>b. b\<lparr>Q := add_residual u (residual_Q_to_V (base child')),
            residual_Q_to_V := update_residual (residual_Q_to_V b) (N b)
               (add_residual u (residual_Q_to_V (base child'))) v\<rparr>)
          (set_children (AList.update key (i, child') (children mid)) mid)"
    by (rule visit_tail_Inr)
  from ok have mid: "base_ok (base mid)" "\<forall>e \<in> set (children mid). node_ok (snd (snd e))"
    "is_ActionNode mid \<longrightarrow> (\<forall>t \<in> set_option (spawned_tree mid). tree_ok t)"
    by (simp_all add: node_ok_sel [of mid])
  from look have "(key, i, child) \<in> set (children mid)"
    by (rule map_of_SomeD)
  with mid(2) have "node_ok child" by auto
  then have child': "node_ok child'"
    using rec by (rule rec_ok)
  then have res': "residual_ok (residual_Q_to_V (base child'))"
    by (simp add: node_ok_sel [of child'] base_ok_def)
  have kids: "\<forall>e \<in> set (AList.update key (i, child') (children mid)). node_ok (snd (snd e))"
    using mid(2) child' by (auto dest: set_update_cases)
  from calc_union_interval_ordered [OF ordered union] res'
  have q: "fst (add_residual u (residual_Q_to_V (base child'))) \<le> snd (add_residual u (residual_Q_to_V (base child')))"
    by (rule add_residual_ordered)
  from mid(1) have "residual_ok (residual_Q_to_V (base mid))"
    by (simp add: base_ok_def)
  from update_residual_ok [OF this q visited]
  have "base_ok (base self')"
    by (simp add: self' base_ok_def q)
  with kids mid(3) show ?thesis
    unfolding self' by (simp add: node_ok_update_base)
qed


lemma expand_actions_ok:
  assumes "expand_actions X M as self = Inr self'" and "node_ok self"
  shows "node_ok self'"
proof -
  note p = expand_actions_preserves [OF assms(1)]
  have "node_ok (snd (snd e))" if "e \<in> set (children self')" for e
  proof -
    from that expand_actions_children [OF assms(1)]
    have "e \<in> set (children self) \<or> fresh_child X M self (fst e) (snd (snd e))"
      by blast
    then show ?thesis
    proof
      assume "e \<in> set (children self)"
      with assms(2) show ?thesis
        by (simp add: node_ok_sel [of self])
    next
      assume "fresh_child X M self (fst e) (snd (snd e))"
      from fresh_child_props [OF this] show ?thesis by simp
    qed
  qed
  with assms(2) p show ?thesis
    by (simp add: node_ok_sel [of self] node_ok_sel [of self'])
qed

lemma ActionNode_expand_props:
  assumes "ActionNode_expand X M self = Inr self'"
  shows "N (base self') = N (base self)" and "is_ActionNode self' = is_ActionNode self"
    and "node_ok self \<Longrightarrow> node_ok self'"
proof -
  have "N (base self') = N (base self) \<and> is_ActionNode self' = is_ActionNode self
      \<and> (node_ok self \<longrightarrow> node_ok self')"
  proof (cases "game_outcome (base self) = None")
    case False
    with assms have "self' = update_base (\<lambda>b. b\<lparr>expanded := True\<rparr>) self"
      by (simp add: ActionNode_expand_def Let_def terminal_def)
    then show ?thesis
      by (simp add: node_ok_update_base base_ok_def node_ok_sel [of self])
  next
    case True
    with assms obtain s1 s2 v where
      s1: "eval_model M (update_base (\<lambda>b. b\<lparr>expanded := True\<rparr>) self) = Inr s1"
      and s2: "expand_actions X M (actions s1) s1 = Inr s2"
      and self': "self' = update_base (\<lambda>b. b\<lparr>Q := (v, v)\<rparr>) s2"
      by (auto elim: ActionNode_expand_Inr)
    note p1 = eval_model_preserves [OF s1]
    note p2 = expand_actions_preserves [OF s2]
    have "node_ok s2" if "node_ok self"
    proof -
      from that have "node_ok (update_base (\<lambda>b. b\<lparr>expanded := True\<rparr>) self)"
        by (simp add: node_ok_update_base base_ok_def node_ok_sel [of self])
      then have "node_ok s1"
        using s1 by (rule eval_model_ok)
      with s2 show ?thesis
        by (rule expand_actions_ok)
    qed
    then have "node_ok self \<longrightarrow> node_ok self'"
      by (auto simp add: self' node_ok_update_base base_ok_def node_ok_sel [of s2])
    with p1 p2 show ?thesis
      by (simp add: self')
  qed
  then show "N (base self') = N (base self)" and "is_ActionNode self' = is_ActionNode self"
    and "node_ok self \<Longrightarrow> node_ok self'"
    by simp_all
qed

lemma create_spawned_tree_ok:
  assumes "create_spawned_tree X M s = Inr t"
  shows "tree_ok t"
proof -
  from assms obtain r where r: "ActionNode_init X (redacted_clone X s) None (Scalar 0) = Inr r"
    and t: "t = Tree_init X M r"
    by (auto simp add: create_spawned_tree_def elim!: ebind_InrE)
  from constructed_ok(2) [OF r] have "node_ok r" by simp
  then show ?thesis
    by (simp add: t Tree_init_def Let_def node_ok_update_base base_ok_def node_ok_sel [of r])
qed

lemma expand_hidden_state_Inr:
  assumes "expand_hidden_state X M h self = Inr self'"
  obtains node' where "self' = add_child h node' self" and "node_ok node'"
    and "N (base node') = 0"
proof -
  let ?s = "instantiate_hidden_state X (info_set (base self)) h"
  from assms have visible: "\<not> has_hidden_info X ?s"
    by (auto simp add: expand_hidden_state_def Let_def elim!: ebind_InrE split: if_splits)
  with assms obtain q n0 t n1 where
    n0: "ActionNode_init X ?s (tree_owner (base self)) (Scalar q) = Inr n0"
    and t: "create_spawned_tree X M ?s = Inr t"
    and n1: "eval_model M (set_spawned_tree (Some t) n0) = Inr n1"
    and self': "self' = add_child h n1 self"
    by (auto simp add: expand_hidden_state_def Let_def CHEAT_def elim!: ebind_InrE)
  from constructed_ok(2) [OF n0] create_spawned_tree_ok [OF t]
  have "node_ok (set_spawned_tree (Some t) n0)" "N (base (set_spawned_tree (Some t) n0)) = 0"
    by (simp_all add: node_ok_set_spawned_tree node_ok_sel [of n0])
  with eval_model_ok [OF _ n1] eval_model_preserves(3) [OF n1] self' show ?thesis
    by (intro that [of n1]) simp_all
qed

lemma expand_hidden_states_props:
  assumes "expand_hidden_states X M hs self = Inr self'"
  shows "base self' = base self \<and> is_ActionNode self' = is_ActionNode self \<and> H self' = H self
       \<and> (node_ok self \<longrightarrow> node_ok self')"
  using assms
proof (induction hs arbitrary: self)
  case Nil
  then show ?case by simp
next
  case (Cons h hs)
  from Cons.prems obtain s1 where s1: "expand_hidden_state X M h self = Inr s1"
    and rest: "expand_hidden_states X M hs s1 = Inr self'"
    by (auto elim: ebind_InrE)
  from s1 obtain node' where "s1 = add_child h node' self" and "node_ok node'"
    by (rule expand_hidden_state_Inr)
  with Cons.IH [OF rest] show ?case
    by (simp add: node_ok_add_child)
qed

lemma SamplingNode_expand_props:
  assumes "SamplingNode_expand X M self = Inr self'"
  shows "N (base self') = N (base self)" and "is_ActionNode self' = is_ActionNode self"
    and "residual_Q_to_V (base self') = residual_Q_to_V (base self)"
    and "node_ok self \<Longrightarrow> node_ok self'"
proof -
  from assms obtain s1 s2 where s1: "eval_model M self = Inr s1"
    and s2: "expand_hidden_states X M (filter (\<lambda>h. H_mask s1 ! h) [0..<length (H_mask s1)]) s1 = Inr s2"
    and self': "self' = update_base (\<lambda>b. b\<lparr>expanded := True\<rparr>) s2"
    by (auto simp add: SamplingNode_expand_def elim!: ebind_InrE)
  note p1 = eval_model_preserves [OF s1]
  note p2 = expand_hidden_states_props [OF s2]
  from p1 p2 show "N (base self') = N (base self)" and "is_ActionNode self' = is_ActionNode self"
    and "residual_Q_to_V (base self') = residual_Q_to_V (base self)"
    by (simp_all add: self')
  show "node_ok self'" if "node_ok self"
  proof -
    from that s1 have "node_ok s1" by (rule eval_model_ok)
    with p2 have "node_ok s2" by simp
    then show ?thesis
      by (simp add: self' node_ok_update_base base_ok_def node_ok_sel [of s2])
  qed
qed


lemma visit_step_N:
  assumes "visit_step rec X M node g = Inr (node', r, g')"
  shows "N (base node') = N (base node) + 1"
proof (cases "is_ActionNode node")
  case True
  from assms True show ?thesis
  proof (cases rule: visit_step_ActionNode_cases)
    case terminal
    then show ?thesis by simp
  next
    case expand
    from ActionNode_expand_props(1) [OF expand(3)] show ?thesis by simp
  next
    case spawned
    from spawned(4) show ?thesis
      by (auto elim!: spawned_visit_Inr dest!: visit_tail_base(1))
  next
    case unspawned
    from unspawned(4) show ?thesis
      by (auto elim!: unspawned_visit_Inr dest!: visit_tail_base(1))
  qed
next
  case False
  from assms False obtain mid hv k g1 where
    mid: "if expanded (base node) then mid = update_base (\<lambda>b. b\<lparr>N := N b + 1\<rparr>) node
     else SamplingNode_expand X M (update_base (\<lambda>b. b\<lparr>N := N b + 1\<rparr>) node) = Inr mid"
    and "H mid = Some hv"
    and tail: "visit_tail rec X mid k (H mid) g1 = Inr (node', g')"
    by (rule visit_step_SamplingNode_Inr)
  from mid have "N (base mid) = N (base node) + 1"
    by (auto split: if_splits dest: SamplingNode_expand_props(1))
  with visit_tail_base(1) [OF tail] show ?thesis by simp
qed

lemma visit_N:
  assumes "visit d X M node g = Inr (node', r, g')"
  shows "N (base node') = N (base node) + 1"
proof (cases d)
  case 0
  with assms show ?thesis by simp
next
  case (Suc d')
  with assms have "visit_step (visit d' X M) X M node g = Inr (node', r, g')"
    by simp
  then show ?thesis by (rule visit_step_N)
qed

lemma visit_step_ok:
  assumes rec_ok: "\<And>c g c' r g'. node_ok c \<Longrightarrow> rec c g = Inr (c', r, g') \<Longrightarrow> node_ok c'"
    and ordered: "perturb_ordered X" and ok: "node_ok node"
    and run: "visit_step rec X M node g = Inr (node', r, g')"
  shows "node_ok node'"
proof -
  let ?self = "update_base (\<lambda>b. b\<lparr>N := N b + 1\<rparr>) node"
  from ok have self_ok: "node_ok ?self"
    by (simp add: node_ok_update_base base_ok_def node_ok_sel [of node])
  have self_N: "0 < N (base ?self)" by simp
  show ?thesis
  proof (cases "is_ActionNode node")
    case True
    from run True show ?thesis
    proof (cases rule: visit_step_ActionNode_cases)
      case terminal
      with self_ok show ?thesis by simp
    next
      case expand
      from ActionNode_expand_props(3) [OF expand(3) self_ok] show ?thesis .
    next
      case unspawned
      from unspawned(4) obtain key g1 where
        "visit_tail rec X ?self key (P ?self) g1 = Inr (node', g')"
        by (rule unspawned_visit_Inr)
      with rec_ok ordered self_ok self_N show ?thesis
        by (rule visit_tail_ok)
    next
      case spawned
      from spawned(4) obtain Mt r0 ow r1 g1 r2 a g2 where
        sp: "spawned_tree ?self = Some (Tree Mt r0 ow)"
        and boot: "if N (base r0) = 0 then (\<exists>x. rec r0 g = Inr (r1, x, g1)) else r1 = r0 \<and> g1 = g"
        and sel: "rec r1 g1 = Inr (r2, Some a, g2)"
        and tail: "visit_tail rec X (set_spawned_tree (Some (Tree Mt r2 ow)) ?self) a (P ?self) g2 = Inr (node', g')"
        by (rule spawned_visit_Inr)
      from ok sp True have "node_ok r0"
        by (simp add: node_ok_sel [of node])
      with boot have "node_ok r1"
        by (auto split: if_splits intro: rec_ok)
      then have "node_ok r2"
        using sel by (rule rec_ok)
      with self_ok have mid_ok: "node_ok (set_spawned_tree (Some (Tree Mt r2 ow)) ?self)"
        by (simp add: node_ok_set_spawned_tree node_ok_update_base)
      have "0 < N (base (set_spawned_tree (Some (Tree Mt r2 ow)) ?self))"
        by simp
      with rec_ok ordered mid_ok show ?thesis
        using tail by (rule visit_tail_ok)
    qed
  next
    case False
    from run False obtain mid hv k g1 where
      mid: "if expanded (base node) then mid = ?self
       else SamplingNode_expand X M ?self = Inr mid"
      and "H mid = Some hv"
      and tail: "visit_tail rec X mid k (H mid) g1 = Inr (node', g')"
      by (rule visit_step_SamplingNode_Inr)
    from mid self_ok have mid_ok: "node_ok mid"
      by (auto split: if_splits dest: SamplingNode_expand_props(4))
    from mid have "0 < N (base mid)"
      by (auto split: if_splits dest: SamplingNode_expand_props(1))
    with rec_ok ordered mid_ok show ?thesis
      using tail by (rule visit_tail_ok)
  qed
qed

lemma visit_ok:
  assumes "perturb_ordered X"
  shows "node_ok node \<Longrightarrow> visit d X M node g = Inr (node', r, g') \<Longrightarrow> node_ok node'"
proof (induction d arbitrary: node g node' r g')
  case 0
  then show ?case by simp
next
  case (Suc d)
  from Suc.prems(2) have "visit_step (visit d X M) X M node g = Inr (node', r, g')"
    by simp
  with Suc.IH assms Suc.prems(1) show ?case
    by (rule visit_step_ok)
qed


lemma visit_times_props:
  assumes "visit_times k d X M node g = Inr (node', g')"
  shows "N (base node') = N (base node) + k
       \<and> (perturb_ordered X \<and> node_ok node \<longrightarrow> node_ok node')"
  using assms
proof (induction k arbitrary: node g)
  case 0
  then show ?case by simp
next
  case (Suc k)
  from Suc.prems obtain n1 r g1 where first: "visit d X M node g = Inr (n1, r, g1)"
    and rest: "visit_times k d X M n1 g1 = Inr (node', g')"
    by (auto elim!: ebind_InrE)
  from visit_N [OF first] visit_ok [OF _ _ first] Suc.IH [OF rest] show ?case
    by auto
qed

text \<open>
  Claim C8. Every call of \<^verbatim>\<open>visit\<close> that returns has incremented \<^verbatim>\<open>N\<close> of its node by
  exactly one, and a node starts with \<^verbatim>\<open>N = 0\<close>, so after any sequence of \<open>k\<close> visits
  \<^verbatim>\<open>N\<close> has grown by \<open>k\<close>. When \<^verbatim>\<open>perturb_prob_simplex\<close> returns ordered intervals,
  the visits keep \<open>Q.lower \<le> Q.upper\<close> at the node, at every node below it and in the
  spawned trees; the constructors establish it.
\<close>

theorem visits_are_counted_and_intervals_ordered:
  "(visit_times k d X M node g = Inr (node', g') \<longrightarrow>
      N (base node') = N (base node) + k
      \<and> (perturb_ordered X \<and> node_ok node \<longrightarrow>
           node_ok node' \<and> fst (Q (base node')) \<le> snd (Q (base node'))))
   \<and> (visit d X M node g = Inr (node'', r, g'') \<longrightarrow> N (base node'') = N (base node) + 1)
   \<and> (ActionNode_init X s owner (Scalar q) = Inr n \<longrightarrow> N (base n) = 0 \<and> node_ok n)
   \<and> (SamplingNode_init X s owner (Scalar q) = Inr n \<longrightarrow> N (base n) = 0 \<and> node_ok n)
   \<and> (create_spawned_tree X M s = Inr t \<longrightarrow> tree_ok t)"
proof -
  have "N (base node') = N (base node) + k
      \<and> (perturb_ordered X \<and> node_ok node \<longrightarrow>
           node_ok node' \<and> fst (Q (base node')) \<le> snd (Q (base node')))"
    if "visit_times k d X M node g = Inr (node', g')"
    using visit_times_props [OF that]
    by (auto simp add: node_ok_sel [of node'] base_ok_def)
  moreover have "N (base node'') = N (base node) + 1"
    if "visit d X M node g = Inr (node'', r, g'')"
    using that by (rule visit_N)
  moreover have "N (base n) = 0 \<and> node_ok n" if "ActionNode_init X s owner (Scalar q) = Inr n"
    using constructed_ok(2) [OF that] by simp
  moreover have "N (base n) = 0 \<and> node_ok n" if "SamplingNode_init X s owner (Scalar q) = Inr n"
    using constructed_ok(1) [OF that] by simp
  moreover have "tree_ok t" if "create_spawned_tree X M s = Inr t"
    using that by (rule create_spawned_tree_ok)
  ultimately show ?thesis
    by blast
qed

lemma demo_perturb_ordered: "perturb_ordered demo_env"
  by (auto simp add: perturb_ordered_def demo_perturb_def Let_def)

lemma demo_second_visit:
  "visit (Suc (Suc d)) demo_env demo_model demo_root_expanded g = Inr (demo_root_visited, Some 0, g)"
  by (simp add: np_sum_short float64_threshold_one demo_root_expanded_def demo_root_visited_def demo_leaf_def
      terminal_def broadcast2_def c_PUCT_def Let_def list_get_def visit_child_def get_child_def
      calc_union_interval_def get_Vc_def fancy_index_def demo_perturb_def EPS_def update_Q_def)

lemma demo_two_visits:
  "visit_times (Suc (Suc 0)) (Suc (Suc 0)) demo_env demo_model demo_root demo_rng =
     Inr (demo_root_visited, demo_rng)"
proof -
  have "visit (Suc (Suc 0)) demo_env demo_model demo_root demo_rng =
      Inr (demo_root_expanded, None, demo_rng)"
    by (simp add: demo_root_def demo_root_expanded_def demo_leaf_def terminal_def
      ActionNode_expand_def expand_action_def construct_child_def index_Vc_def list_get_def
      ActionNode_init_def add_child_def CHEAT_def Let_def)
  then show ?thesis
    by (simp add: demo_second_visit del: visit.simps)
qed

theorem visits_are_counted_and_intervals_ordered_witness:
  "visit_times (Suc (Suc 0)) (Suc (Suc 0)) demo_env demo_model demo_root demo_rng =
     Inr (demo_root_visited, demo_rng)
   \<and> perturb_ordered demo_env \<and> node_ok demo_root
   \<and> ActionNode_init demo_env 0 (Some 0) (Scalar 0) = Inr demo_root
   \<and> N (base demo_root) = 0
   \<and> N (base demo_root_visited) = 2
   \<and> node_ok demo_root_visited
   \<and> Q (base demo_root_visited) = (9 / 20, 11 / 20)"
proof -
  have init: "ActionNode_init demo_env 0 (Some 0) (Scalar 0) = Inr demo_root"
    by (simp add: ActionNode_init_def demo_root_def Let_def)
  note inst = visits_are_counted_and_intervals_ordered
    [where k = "Suc (Suc 0)" and d = "Suc (Suc 0)" and X = demo_env and M = demo_model
      and node = demo_root and g = demo_rng and node' = demo_root_visited and g' = demo_rng
      and s = 0 and owner = "Some 0" and q = 0 and n = demo_root]
  from inst init have fresh: "N (base demo_root) = 0" "node_ok demo_root"
    by blast+
  from inst demo_two_visits demo_perturb_ordered fresh
  have "N (base demo_root_visited) = N (base demo_root) + Suc (Suc 0)" "node_ok demo_root_visited"
    by blast+
  with fresh demo_two_visits demo_perturb_ordered init show ?thesis
    by (simp add: demo_root_visited_def)
qed

section \<open>The residual\<close>

lemma update_residual_formula:
  "update_residual r n q v =
     Interval ((fst (to_interval r) * (real n - 1) + fst q - v) / real n,
               (snd (to_interval r) * (real n - 1) + snd q - v) / real n)"
  by (cases q; cases r rule: residual_ok.cases) simp_all

lemma visit_tail_residual:
  assumes "visit_tail rec X mid key probs g1 = Inr (self', g')"
  shows "\<exists>v. V (base self') = Some v
           \<and> residual_Q_to_V (base self') =
               update_residual (residual_Q_to_V (base mid)) (N (base self')) (Q (base self')) v"
  using assms by (auto elim!: visit_tail_Inr)

lemma visit_step_residual:
  assumes run: "visit_step rec X M node g = Inr (node', r, g')"
    and recursing: "is_ActionNode node \<longrightarrow> game_outcome (base node) = None \<and> expanded (base node)"
  shows "\<exists>v. V (base node') = Some v
           \<and> residual_Q_to_V (base node') =
               update_residual (residual_Q_to_V (base node)) (N (base node')) (Q (base node')) v"
proof (cases "is_ActionNode node")
  case True
  from run True show ?thesis
  proof (cases rule: visit_step_ActionNode_cases)
    case terminal
    with recursing True show ?thesis by simp
  next
    case expand
    with recursing True show ?thesis by simp
  next
    case unspawned
    from unspawned(4) show ?thesis
      by (auto elim!: unspawned_visit_Inr dest!: visit_tail_residual)
  next
    case spawned
    from spawned(4) show ?thesis
      by (auto elim!: spawned_visit_Inr dest!: visit_tail_residual)
  qed
next
  case False
  from run False obtain mid hv k g1 where
    mid: "if expanded (base node) then mid = update_base (\<lambda>b. b\<lparr>N := N b + 1\<rparr>) node
     else SamplingNode_expand X M (update_base (\<lambda>b. b\<lparr>N := N b + 1\<rparr>) node) = Inr mid"
    and "H mid = Some hv"
    and tail: "visit_tail rec X mid k (H mid) g1 = Inr (node', g')"
    by (rule visit_step_SamplingNode_Inr)
  from mid have "residual_Q_to_V (base mid) = residual_Q_to_V (base node)"
    by (auto split: if_splits dest: SamplingNode_expand_props(3))
  with visit_tail_residual [OF tail] show ?thesis by simp
qed

text \<open>
  Claim C7, as amended. \<^verbatim>\<open>residual_Q_to_V\<close> starts as the scalar \<open>0\<close>. A visit that
  recurses into a child (any visit of a \<^verbatim>\<open>SamplingNode\<close>, and a visit of an
  \<^verbatim>\<open>ActionNode\<close> that is not terminal and already expanded) and returns leaves it as an
  array of two, one component for each bound of \<open>Q\<close>:
  \<open>((N - 1) * residual + (Q - V)) / N\<close> taken componentwise, with the incremented \<open>N\<close>,
  the \<open>Q\<close> recomputed in this visit and the point estimate \<open>V\<close>; an old residual that
  is still a scalar counts for both components.
\<close>

theorem residual_update_formula:
  "(visit d X M node g = Inr (node', r, g')
      \<and> (is_ActionNode node \<longrightarrow> game_outcome (base node) = None \<and> expanded (base node)) \<longrightarrow>
      (\<exists>v. V (base node') = Some v
         \<and> N (base node') = N (base node) + 1
         \<and> residual_Q_to_V (base node') =
             Interval ((fst (to_interval (residual_Q_to_V (base node))) * (real (N (base node')) - 1)
                          + fst (Q (base node')) - v) / real (N (base node')),
                       (snd (to_interval (residual_Q_to_V (base node))) * (real (N (base node')) - 1)
                          + snd (Q (base node')) - v) / real (N (base node')))))
   \<and> residual_Q_to_V (Node_init X s owner q) = Scalar 0"
proof -
  have "\<exists>v. V (base node') = Some v
         \<and> N (base node') = N (base node) + 1
         \<and> residual_Q_to_V (base node') =
             Interval ((fst (to_interval (residual_Q_to_V (base node))) * (real (N (base node')) - 1)
                          + fst (Q (base node')) - v) / real (N (base node')),
                       (snd (to_interval (residual_Q_to_V (base node))) * (real (N (base node')) - 1)
                          + snd (Q (base node')) - v) / real (N (base node')))"
    if run: "visit d X M node g = Inr (node', r, g')"
      and recursing: "is_ActionNode node \<longrightarrow> game_outcome (base node) = None \<and> expanded (base node)"
  proof (cases d)
    case 0
    with run show ?thesis by simp
  next
    case (Suc d')
    with run have "visit_step (visit d' X M) X M node g = Inr (node', r, g')"
      by simp
    from visit_step_residual [OF this recursing] visit_N [OF run] show ?thesis
      unfolding update_residual_formula by auto
  qed
  then show ?thesis
    by simp
qed

theorem residual_update_formula_witness:
  "visit (Suc (Suc 0)) demo_env demo_model demo_root_expanded demo_rng =
     Inr (demo_root_visited, Some 0, demo_rng)
   \<and> is_ActionNode demo_root_expanded \<and> game_outcome (base demo_root_expanded) = None
   \<and> expanded (base demo_root_expanded)
   \<and> residual_Q_to_V (base demo_root_expanded) = Scalar 0
   \<and> V (base demo_root_visited) = Some (1 / 2)
   \<and> N (base demo_root_visited) = 2
   \<and> Q (base demo_root_visited) = (9 / 20, 11 / 20)
   \<and> residual_Q_to_V (base demo_root_visited) =
       Interval ((0 * (2 - 1) + 9 / 20 - 1 / 2) / 2, (0 * (2 - 1) + 11 / 20 - 1 / 2) / 2)"
proof -
  have run: "visit (Suc (Suc 0)) demo_env demo_model demo_root_expanded demo_rng =
     Inr (demo_root_visited, Some 0, demo_rng)"
    by (rule demo_second_visit)
  have recursing: "is_ActionNode demo_root_expanded \<longrightarrow>
      game_outcome (base demo_root_expanded) = None \<and> expanded (base demo_root_expanded)"
    by (simp add: demo_root_expanded_def)
  from residual_update_formula [where d = "Suc (Suc 0)" and X = demo_env and M = demo_model
      and node = demo_root_expanded and g = demo_rng and node' = demo_root_visited
      and r = "Some 0" and g' = demo_rng] run recursing
  obtain v where "V (base demo_root_visited) = Some v"
    and "residual_Q_to_V (base demo_root_visited) =
             Interval ((fst (to_interval (residual_Q_to_V (base demo_root_expanded)))
                          * (real (N (base demo_root_visited)) - 1)
                          + fst (Q (base demo_root_visited)) - v) / real (N (base demo_root_visited)),
                       (snd (to_interval (residual_Q_to_V (base demo_root_expanded)))
                          * (real (N (base demo_root_visited)) - 1)
                          + snd (Q (base demo_root_visited)) - v) / real (N (base demo_root_visited)))"
    by blast
  then have "residual_Q_to_V (base demo_root_visited) =
       Interval ((0 * (2 - 1) + 9 / 20 - 1 / 2) / 2, (0 * (2 - 1) + 11 / 20 - 1 / 2) / 2)"
    by (simp add: demo_root_visited_def demo_root_expanded_def)
  moreover have "is_ActionNode demo_root_expanded \<and> game_outcome (base demo_root_expanded) = None
      \<and> expanded (base demo_root_expanded)
      \<and> residual_Q_to_V (base demo_root_expanded) = Scalar 0"
    by (simp add: demo_root_expanded_def)
  moreover have "V (base demo_root_visited) = Some (1 / 2) \<and> N (base demo_root_visited) = 2
      \<and> Q (base demo_root_visited) = (9 / 20, 11 / 20)"
    by (simp add: demo_root_visited_def)
  ultimately show ?thesis
    using run by blast
qed

text \<open>
  The second visit of the root of the small game: the residual was the scalar \<open>0\<close> and
  becomes the array \<open>(-1/40, 1/40)\<close>, which is no scalar.
\<close>

theorem residual_becomes_an_array:
  "residual_Q_to_V (base demo_root_expanded) = Scalar 0
   \<and> visit (Suc (Suc 0)) demo_env demo_model demo_root_expanded demo_rng =
       Inr (demo_root_visited, Some 0, demo_rng)
   \<and> residual_Q_to_V (base demo_root_visited) = Interval (- 1 / 40, 1 / 40)
   \<and> residual_Q_to_V (base demo_root_visited) \<noteq> Scalar (- 1 / 40)
   \<and> residual_Q_to_V (base demo_root_visited) \<noteq> Scalar (1 / 40)"
proof -
  have "visit (Suc (Suc 0)) demo_env demo_model demo_root_expanded demo_rng =
       Inr (demo_root_visited, Some 0, demo_rng)"
    by (rule demo_second_visit)
  moreover have "residual_Q_to_V (base demo_root_expanded) = Scalar 0"
    by (simp add: demo_root_expanded_def)
  moreover have "residual_Q_to_V (base demo_root_visited) = Interval (- 1 / 40, 1 / 40)"
    by (simp add: demo_root_visited_def)
  ultimately show ?thesis
    by simp
qed

section \<open>Tree: the visit distribution\<close>

text \<open>
  The loop of \<^verbatim>\<open>Tree.get_visit_distribution\<close>: \<^verbatim>\<open>while self.root.N <= n\<close> the root is
  visited. Every visit that returns has incremented \<^verbatim>\<open>N\<close>, so the loop ends; a visit that
  raises ends it too. (The call of \<^verbatim>\<open>visit_counter\<close> in its body only records.)
\<close>

function visit_while ::
  "nat \<Rightarrow> 'i env \<Rightarrow> 'i model \<Rightarrow> int \<Rightarrow> 'i node \<Rightarrow> rng \<Rightarrow> ('i node \<times> rng) result" where
  "visit_while d X M n rt g =
     (if int (N (base rt)) \<le> n
      then (case visit d X M rt g of
              Inl e \<Rightarrow> Inl e
            | Inr (rt', r, g') \<Rightarrow> visit_while d X M n rt' g')
      else Inr (rt, g))"
  by pat_completeness auto

termination
proof (relation "measure (\<lambda>(d, X, M, n, rt, g). nat (n + 1 - int (N (base rt))))")
  show "wf (measure (\<lambda>(d, X, M, n, rt, g). nat (n + 1 - int (N (base rt)))))"
    by simp
next
  fix d :: nat and X :: "'i env" and M :: "'i model" and n :: int and rt :: "'i node" and g :: rng
    and x :: "'i node \<times> action option \<times> rng" and rt' :: "'i node" and y :: "action option \<times> rng"
    and r :: "action option" and g' :: rng
  assume "int (N (base rt)) \<le> n" and "visit d X M rt g = Inr x" and "(rt', y) = x" and "(r, g') = y"
  then have "N (base rt') = N (base rt) + 1"
    by (auto dest: visit_N)
  with \<open>int (N (base rt)) \<le> n\<close>
  show "((d, X, M, n, rt', g'), (d, X, M, n, rt, g))
      \<in> measure (\<lambda>(d, X, M, n, rt, g). nat (n + 1 - int (N (base rt))))"
    by simp
qed

text \<open>
  \<^verbatim>\<open>get_visit_distribution\<close>: the fractions \<^verbatim>\<open>edge.node.N / n_total\<close> in the order of the
  children, the division of two Python ints raising when \<^verbatim>\<open>n_total\<close> is zero. The tree
  as visited and the generator are returned with it.
\<close>

definition get_visit_distribution ::
  "nat \<Rightarrow> 'i env \<Rightarrow> 'i tree \<Rightarrow> int \<Rightarrow> rng \<Rightarrow> ((action \<times> real) list \<times> 'i tree \<times> rng) result" where
  "get_visit_distribution d X t n g =
     (case t of
        Tree Mt rt ow \<Rightarrow>
          ebind (visit_while d X Mt n rt g) (\<lambda>(rt, g).
            let n_total = int (N (base rt)) - 1 in
            if children rt \<noteq> [] \<and> n_total = 0 then Inl ZeroDivisionError
            else Inr (map (\<lambda>(action, i, child). (action, real (N (base child)) / real_of_int n_total))
                        (children rt),
                      Tree Mt rt ow, g)))"

text \<open>
  The visits that the children of a node have had, and what holds of the root of a tree
  between two visits: it is an \<^verbatim>\<open>ActionNode\<close> that is not terminal, and either it is as
  built, or it is expanded and all its visits but the first went to a child.
\<close>

definition child_visits :: "'i node \<Rightarrow> nat" where
  "child_visits self = (\<Sum>e\<leftarrow>children self. N (base (snd (snd e))))"

definition root_counts :: "'i node \<Rightarrow> bool" where
  "root_counts rt =
     (is_ActionNode rt \<and> game_outcome (base rt) = None
      \<and> (if expanded (base rt) then child_visits rt + 1 = N (base rt)
          else N (base rt) = 0 \<and> children rt = []))"

lemma sum_list_update_child:
  assumes "map_of ch k = Some (i, c)"
  shows "(\<Sum>e\<leftarrow>AList.update k (i, c') ch. N (base (snd (snd e)))) + N (base c)
       = (\<Sum>e\<leftarrow>ch. N (base (snd (snd e)))) + N (base c')"
  using assms by (induction ch) (auto split: if_splits)

lemma visit_tail_child_visits:
  assumes rec_N: "\<And>c g c' r g'. rec c g = Inr (c', r, g') \<Longrightarrow> N (base c') = N (base c) + 1"
    and run: "visit_tail rec X mid key probs g1 = Inr (self', g')"
  shows "child_visits self' = child_visits mid + 1"
proof -
  from run obtain i child child' rr where
    look: "map_of (children mid) key = Some (i, child)"
    and rec: "rec child g1 = Inr (child', rr, g')"
    and kids: "children self' = AList.update key (i, child') (children mid)"
    by (auto elim!: visit_tail_Inr)
  from sum_list_update_child [OF look, of child'] rec_N [OF rec] show ?thesis
    by (simp add: child_visits_def kids)
qed

lemma ActionNode_expand_counts:
  assumes run: "ActionNode_expand X M self = Inr self'" and live: "game_outcome (base self) = None"
    and empty: "children self = []"
  shows "child_visits self' = 0 \<and> expanded (base self') \<and> game_outcome (base self') = None"
proof -
  from run live obtain s1 s2 v where
    s1: "eval_model M (update_base (\<lambda>b. b\<lparr>expanded := True\<rparr>) self) = Inr s1"
    and s2: "expand_actions X M (actions s1) s1 = Inr s2"
    and self': "self' = update_base (\<lambda>b. b\<lparr>Q := (v, v)\<rparr>) s2"
    by (auto elim: ActionNode_expand_Inr)
  note p1 = eval_model_preserves [OF s1]
  note p2 = expand_actions_preserves [OF s2]
  have "N (base (snd (snd e))) = 0" if "e \<in> set (children s2)" for e
  proof -
    from that expand_actions_children [OF s2] p1(1) empty
    have "fresh_child X M s1 (fst e) (snd (snd e))"
      by auto
    from fresh_child_props [OF this] show ?thesis by simp
  qed
  then have "child_visits self' = 0"
    by (simp add: child_visits_def self')
  with p1 p2 live show ?thesis
    by (simp add: self')
qed

lemma visit_step_root_counts:
  assumes rec_N: "\<And>c g c' r g'. rec c g = Inr (c', r, g') \<Longrightarrow> N (base c') = N (base c) + 1"
    and inv: "root_counts node"
    and run: "visit_step rec X M node g = Inr (node', r, g')"
  shows "root_counts node' \<and> expanded (base node')"
proof -
  let ?self = "update_base (\<lambda>b. b\<lparr>N := N b + 1\<rparr>) node"
  from inv have kind: "is_ActionNode node" and live: "game_outcome (base node) = None"
    by (simp_all add: root_counts_def)
  note n' = visit_step_N [OF run]
  have tail: "root_counts node' \<and> expanded (base node')"
    if "visit_tail rec X mid key probs g1 = Inr (node', g')"
      and "is_ActionNode mid" and "game_outcome (base mid) = None" and "expanded (base mid)"
      and "child_visits mid = child_visits node" and "expanded (base node)"
    for mid key probs g1
  proof -
    from visit_tail_child_visits [OF rec_N that(1)] that(5)
    have "child_visits node' = child_visits node + 1" by simp
    with inv that(6) n' have "child_visits node' + 1 = N (base node')"
      by (simp add: root_counts_def)
    with visit_tail_base [OF that(1)] that(2-4) show ?thesis
      by (simp add: root_counts_def)
  qed
  from run kind show ?thesis
  proof (cases rule: visit_step_ActionNode_cases)
    case terminal
    with live show ?thesis by simp
  next
    case expand
    from inv expand(2) have "children ?self = []" "N (base node) = 0"
      by (simp_all add: root_counts_def)
    with ActionNode_expand_counts [OF expand(3)] live ActionNode_expand_props(1,2) [OF expand(3)] kind
    show ?thesis
      by (simp add: root_counts_def)
  next
    case unspawned
    from unspawned(4) obtain key g1 where
      "visit_tail rec X ?self key (P ?self) g1 = Inr (node', g')"
      by (rule unspawned_visit_Inr)
    from tail [OF this] kind live unspawned(2) show ?thesis
      by (simp add: child_visits_def)
  next
    case spawned
    from spawned(4) obtain Mt r0 ow r1 g1 r2 a g2 where
      "spawned_tree ?self = Some (Tree Mt r0 ow)"
      and "if N (base r0) = 0 then (\<exists>x. rec r0 g = Inr (r1, x, g1)) else r1 = r0 \<and> g1 = g"
      and "rec r1 g1 = Inr (r2, Some a, g2)"
      and "visit_tail rec X (set_spawned_tree (Some (Tree Mt r2 ow)) ?self) a (P ?self) g2 = Inr (node', g')"
      by (rule spawned_visit_Inr)
    from tail [OF this(4)] kind live spawned(2) show ?thesis
      by (simp add: child_visits_def)
  qed
qed

lemma visit_root_counts:
  assumes "root_counts node" and "visit d X M node g = Inr (node', r, g')"
  shows "root_counts node' \<and> expanded (base node')"
proof (cases d)
  case 0
  with assms show ?thesis by simp
next
  case (Suc d')
  with assms(2) have "visit_step (visit d' X M) X M node g = Inr (node', r, g')"
    by simp
  with visit_N assms(1) show ?thesis
    by (rule visit_step_root_counts)
qed

lemma visit_while_counts:
  "root_counts rt \<Longrightarrow> visit_while d X M n rt g = Inr (rt', g') \<Longrightarrow>
     root_counts rt' \<and> (if int (N (base rt)) \<le> n then int (N (base rt')) = n + 1 else rt' = rt)"
proof (induction d X M n rt g rule: visit_while.induct)
  case (1 d X M n rt g)
  show ?case
  proof (cases "int (N (base rt)) \<le> n")
    case False
    with "1.prems" show ?thesis by simp
  next
    case True
    with "1.prems"(2) obtain rt1 r g1 where first: "visit d X M rt g = Inr (rt1, r, g1)"
      and rest: "visit_while d X M n rt1 g1 = Inr (rt', g')"
      by (auto split: sum.splits)
    from visit_root_counts [OF "1.prems"(1) first] have inv1: "root_counts rt1"
      by simp
    from "1.IH" [OF True first refl refl inv1 rest] visit_N [OF first] True
    show ?thesis
      by (auto split: if_splits)
  qed
qed


lemma sum_list_fractions:
  "(\<Sum>e\<leftarrow>ch. real (N (base (snd (snd e)))) / c) = real (\<Sum>e\<leftarrow>ch. N (base (snd (snd e)))) / c"
  by (induction ch) (simp_all add: add_divide_distrib)

lemma fresh_root_counts:
  assumes "ActionNode_init X s owner (Scalar q) = Inr made" and "get_game_outcome X s = None"
  shows "root_counts made \<and> root_counts (root (Tree_init X M made))"
proof -
  from assms have "made = ActionNode (Node_init X s owner (Scalar q)) (get_actions X s) None [] None"
    by (simp add: ActionNode_init_nonterminal)
  with assms(2) show ?thesis
    by (simp add: root_counts_def Tree_init_def Let_def)
qed

text \<open>
  Claim C1, as amended. Let the root be an \<^verbatim>\<open>ActionNode\<close> that is not terminal, as built
  or as earlier visits left it, and let \<open>n \<ge> 1\<close>. When \<^verbatim>\<open>get_visit_distribution(n)\<close>
  returns, the root has been visited while \<open>root.N \<le> n\<close>, so that \<open>root.N = n + 1\<close> (or
  what it was, if that was more); the result gives for each child, in order, the fraction
  \<open>child.N / (root.N - 1)\<close>; and the fractions sum to one. A root as its constructor
  and \<^verbatim>\<open>Tree.__init__\<close> leave it is of this kind.
\<close>

theorem visit_distribution_sums_to_one:
  "(root_counts rt \<and> 1 \<le> n
      \<and> get_visit_distribution d X (Tree Mt rt ow) n g = Inr (fracs, t', g') \<longrightarrow>
      (\<exists>rt'. t' = Tree Mt rt' ow
          \<and> int (N (base rt')) = max (n + 1) (int (N (base rt)))
          \<and> fracs = map (\<lambda>(a, i, c). (a, real (N (base c)) / (real (N (base rt')) - 1))) (children rt')
          \<and> sum_list (map snd fracs) = 1))
   \<and> (ActionNode_init X s owner (Scalar q) = Inr made \<and> get_game_outcome X s = None \<longrightarrow>
        root_counts made \<and> root_counts (root (Tree_init X M made)))"
proof -
  have main: "\<exists>rt'. t' = Tree Mt rt' ow
          \<and> int (N (base rt')) = max (n + 1) (int (N (base rt)))
          \<and> fracs = map (\<lambda>(a, i, c). (a, real (N (base c)) / (real (N (base rt')) - 1))) (children rt')
          \<and> sum_list (map snd fracs) = 1"
    if inv: "root_counts rt" and n: "1 \<le> n"
      and run: "get_visit_distribution d X (Tree Mt rt ow) n g = Inr (fracs, t', g')"
  proof -
    from run obtain rt' g1 where loop: "visit_while d X Mt n rt g = Inr (rt', g1)"
      and fin: "(let n_total = int (N (base rt')) - 1 in
            if children rt' \<noteq> [] \<and> n_total = 0 then Inl ZeroDivisionError
            else Inr (map (\<lambda>(action, i, child). (action, real (N (base child)) / real_of_int n_total))
                        (children rt'),
                      Tree Mt rt' ow, g1)) = Inr (fracs, t', g')"
      by (auto simp add: get_visit_distribution_def elim!: ebind_InrE)
    from visit_while_counts [OF inv loop] have inv': "root_counts rt'"
      and count: "if int (N (base rt)) \<le> n then int (N (base rt')) = n + 1 else rt' = rt"
      by simp_all
    from count have total: "int (N (base rt')) = max (n + 1) (int (N (base rt)))"
      by (auto split: if_splits)
    with n have twice: "2 \<le> N (base rt')"
      by linarith
    with inv' have visits: "child_visits rt' + 1 = N (base rt')"
      by (auto simp add: root_counts_def split: if_splits)
    with twice have pos: "0 < child_visits rt'"
      by simp
    from visits have n_total: "int (N (base rt')) - 1 = int (child_visits rt')"
      and n_total': "real (N (base rt')) - 1 = real (child_visits rt')"
      by linarith+
    from fin pos have t': "t' = Tree Mt rt' ow"
      and fracs: "fracs = map (\<lambda>(action, i, child). (action, real (N (base child)) / real (child_visits rt')))
                        (children rt')"
      by (simp_all add: n_total Let_def)
    have "sum_list (map snd fracs) = (\<Sum>e\<leftarrow>children rt'. real (N (base (snd (snd e)))) / real (child_visits rt'))"
      by (simp add: fracs comp_def split_beta)
    also have "\<dots> = real (child_visits rt') / real (child_visits rt')"
      by (simp add: sum_list_fractions child_visits_def)
    also have "\<dots> = 1"
      using pos by simp
    finally have "sum_list (map snd fracs) = 1" .
    with t' total fracs show ?thesis
      by (simp add: n_total')
  qed
  have "root_counts made \<and> root_counts (root (Tree_init X M made))"
    if "ActionNode_init X s owner (Scalar q) = Inr made \<and> get_game_outcome X s = None"
    using that fresh_root_counts [of X s owner q made M] by blast
  with main show ?thesis
    by blast
qed


lemma demo_first_visit_any:
  "visit (Suc d) demo_env demo_model demo_root g = Inr (demo_root_expanded, None, g)"
  by (simp add: demo_root_def demo_root_expanded_def demo_leaf_def terminal_def
      ActionNode_expand_def expand_action_def construct_child_def index_Vc_def list_get_def
      ActionNode_init_def add_child_def CHEAT_def Let_def)

lemma demo_root_counts [simp]:
  "N (base demo_root) = 0" "N (base demo_root_expanded) = 1" "N (base demo_root_visited) = 2"
  by (simp_all add: demo_root_def demo_root_expanded_def demo_root_visited_def)

lemma demo_visit_distribution:
  "get_visit_distribution (Suc (Suc 0)) demo_env (Tree demo_model demo_root 0) 1 demo_rng =
     Inr ([(0, 1), (1, 0)], Tree demo_model demo_root_visited 0, demo_rng)"
proof -
  have "visit_while (Suc (Suc 0)) demo_env demo_model 1 demo_root demo_rng =
      Inr (demo_root_visited, demo_rng)"
    by (simp add: demo_first_visit_any demo_second_visit del: visit.simps)
  then show ?thesis
    by (simp add: get_visit_distribution_def)
       (simp add: demo_root_visited_def demo_leaf_def)
qed

theorem visit_distribution_sums_to_one_witness:
  "ActionNode_init demo_env 0 (Some 0) (Scalar 0) = Inr demo_root
   \<and> get_game_outcome demo_env 0 = None
   \<and> Tree_init demo_env demo_model demo_root = Tree demo_model demo_root 0
   \<and> root_counts demo_root
   \<and> get_visit_distribution (Suc (Suc 0)) demo_env (Tree demo_model demo_root 0) 1 demo_rng =
       Inr ([(0, 1), (1, 0)], Tree demo_model demo_root_visited 0, demo_rng)
   \<and> N (base demo_root_visited) = 2
   \<and> sum_list (map snd [(0 :: action, 1 :: real), (1, 0)]) = 1"
proof -
  have init: "ActionNode_init demo_env 0 (Some 0) (Scalar 0) = Inr demo_root"
    and live: "get_game_outcome demo_env 0 = None"
    and tree: "Tree_init demo_env demo_model demo_root = Tree demo_model demo_root 0"
    by (simp_all add: ActionNode_init_def demo_root_def Tree_init_def Let_def)
  note inst = visit_distribution_sums_to_one
    [where rt = demo_root and n = 1 and d = "Suc (Suc 0)" and X = demo_env and Mt = demo_model
      and ow = 0 and g = demo_rng and fracs = "[(0, 1), (1, 0)]"
      and t' = "Tree demo_model demo_root_visited 0" and g' = demo_rng
      and s = 0 and owner = "Some 0" and q = 0 and made = demo_root and M = demo_model]
  from inst init live have inv: "root_counts demo_root"
    by blast
  have once: "(1 :: int) \<le> 1"
    by simp
  from inst inv once demo_visit_distribution
  have total: "sum_list (map snd [(0 :: action, 1 :: real), (1, 0)]) = 1"
    by blast
  have "N (base demo_root_visited) = 2"
    by simp
  with init live tree inv demo_visit_distribution total show ?thesis
    by blast
qed

text \<open>
  For \<open>n = 0\<close> the only visit expands the root of the small game, \<open>n_total\<close> is zero and
  the first fraction divides by it. For a terminal root the result is the empty mapping,
  whose fractions sum to zero.
\<close>

theorem visit_distribution_fails_at_zero:
  "ActionNode_init demo_env 0 (Some 0) (Scalar 0) = Inr demo_root
   \<and> Tree_init demo_env demo_model demo_root = Tree demo_model demo_root 0
   \<and> get_visit_distribution (Suc (Suc 0)) demo_env (Tree demo_model demo_root 0) 0 demo_rng =
       Inl ZeroDivisionError
   \<and> ActionNode_init demo_env 1 (Some 0) (Scalar 0) = Inr (demo_leaf 1 0 1)
   \<and> Tree_init demo_env demo_model (demo_leaf 1 0 1) = Tree demo_model (demo_leaf 1 0 1) 0
   \<and> get_visit_distribution (Suc (Suc 0)) demo_env (Tree demo_model (demo_leaf 1 0 1) 0) 1 demo_rng =
       Inr ([], Tree demo_model (update_base (\<lambda>b. b\<lparr>N := 2\<rparr>) (demo_leaf 1 0 1)) 0, demo_rng)
   \<and> sum_list (map snd ([] :: (action \<times> real) list)) \<noteq> 1"
proof -
  have "visit_while (Suc (Suc 0)) demo_env demo_model 0 demo_root demo_rng =
      Inr (demo_root_expanded, demo_rng)"
    by (simp add: demo_first_visit_any del: visit.simps)
  then have zero: "get_visit_distribution (Suc (Suc 0)) demo_env (Tree demo_model demo_root 0) 0 demo_rng =
       Inl ZeroDivisionError"
    by (simp add: get_visit_distribution_def) (simp add: demo_root_expanded_def)
  have ended: "get_visit_distribution (Suc (Suc 0)) demo_env (Tree demo_model (demo_leaf 1 0 1) 0) 1 demo_rng =
       Inr ([], Tree demo_model (update_base (\<lambda>b. b\<lparr>N := 2\<rparr>) (demo_leaf 1 0 1)) 0, demo_rng)"
    by (simp add: get_visit_distribution_def demo_leaf_def terminal_def)
  have "ActionNode_init demo_env 0 (Some 0) (Scalar 0) = Inr demo_root"
    and "Tree_init demo_env demo_model demo_root = Tree demo_model demo_root 0"
    and "ActionNode_init demo_env 1 (Some 0) (Scalar 0) = Inr (demo_leaf 1 0 1)"
    and "Tree_init demo_env demo_model (demo_leaf 1 0 1) = Tree demo_model (demo_leaf 1 0 1) 0"
    by (simp_all add: ActionNode_init_def demo_root_def demo_leaf_def Tree_init_def Let_def)
  with zero ended show ?thesis
    by simp
qed

end
